theory Spec2Isabelle
  imports Main "HOL-Library.Word" "HOL-Library.Monad_Syntax"
begin

section \<open>ByteQueue: byte queues in a pool of 64 fragments\<close>

text \<open>
  A shallow embedding of \<^verbatim>\<open>ByteQueue.cpp\<close>. The static \<^verbatim>\<open>FragmentPool\<close> and the
  lines printed by the two error callbacks are the state; every function takes the state
  and returns the new one. A result \<open>None\<close> stands for undefined behaviour of the C++
  program: dereferencing \<^verbatim>\<open>nullptr\<close> or a pointer outside the pool, indexing
  \<^verbatim>\<open>bytes\<close> outside \<open>0..27\<close>, and reading a member of the union that is not the one
  last written.
\<close>

subsection \<open>Data\<close>

text \<open>\<^verbatim>\<open>unsigned char\<close> and \<^verbatim>\<open>char\<close> are 8-bit words. \<^verbatim>\<open>char\<close> is signed, as the
  source's comparisons with -1 need it to be: it is read through \<open>sint\<close>, which is the
  integer promotion in those comparisons, and \<open>+ 1\<close> on the word is \<^verbatim>\<open>++\<close>.\<close>

type_synonym byte = "8 word"
type_synonym char8 = "8 word"

text \<open>A \<^verbatim>\<open>ByteQueueFragment*\<close>: \<open>Ptr i\<close> is the address of fragment \<open>i\<close> of the pool's
  array (\<open>data + 32 * i\<close>).\<close>

datatype ptr = nullptr | Ptr nat

text \<open>The struct \<^verbatim>\<open>chunk.whenUsed\<close>.\<close>

record fragment =
  m_backFragmentIdx :: char8
  m_nextFragmentIdx :: char8
  m_frontItemIdx :: char8
  m_backItemIdx :: char8
  bytes :: "byte list"

text \<open>The union \<^verbatim>\<open>chunk\<close>: the struct when the fragment is used, the pointer
  \<^verbatim>\<open>chunk.next\<close> when it is on the free list.\<close>

datatype chunk = WhenUsed fragment | NextFree ptr

text \<open>A call of \<^verbatim>\<open>on_out_of_memory()\<close> or of \<^verbatim>\<open>on_illegal_operation()\<close>, each of
  which prints one line.\<close>

datatype report = OutOfMemory | EmptyQueue

text \<open>\<^verbatim>\<open>FragmentPool::data\<close> seen as its 64 fragments of 32 bytes,
  \<^verbatim>\<open>FragmentPool::nextFreeFragment\<close>, and the calls of the error callbacks so far.\<close>

record state =
  data :: "chunk list"
  nextFreeFragment :: ptr
  reports :: "report list"

definition on_out_of_memory :: "state \<Rightarrow> state" where
  "on_out_of_memory s = s\<lparr>reports := reports s @ [OutOfMemory]\<rparr>"

definition on_illegal_operation :: "state \<Rightarrow> state" where
  "on_illegal_operation s = s\<lparr>reports := reports s @ [EmptyQueue]\<rparr>"

subsection \<open>FragmentPool\<close>

definition numFragments :: nat where
  "numFragments = 2048 div 32"

text \<open>\<open>p->chunk.whenUsed\<close> and \<open>p->chunk.next\<close>.\<close>

fun whenUsed :: "state \<Rightarrow> ptr \<Rightarrow> fragment option" where
  "whenUsed s nullptr = None"
| "whenUsed s (Ptr p) =
     (if p < length (data s)
      then (case data s ! p of WhenUsed u \<Rightarrow> Some u | NextFree n \<Rightarrow> None)
      else None)"

fun chunk_next :: "state \<Rightarrow> ptr \<Rightarrow> ptr option" where
  "chunk_next s nullptr = None"
| "chunk_next s (Ptr p) =
     (if p < length (data s)
      then (case data s ! p of WhenUsed u \<Rightarrow> None | NextFree n \<Rightarrow> Some n)
      else None)"

text \<open>A store through a pointer: the chunk becomes \<open>c\<close>.\<close>

fun store :: "ptr \<Rightarrow> chunk \<Rightarrow> state \<Rightarrow> state option" where
  "store nullptr c s = None"
| "store (Ptr p) c s =
     (if p < length (data s) then Some (s\<lparr>data := (data s)[p := c]\<rparr>) else None)"

text \<open>An assignment to members of \<open>p->chunk.whenUsed\<close>.\<close>

definition modify :: "ptr \<Rightarrow> (fragment \<Rightarrow> fragment) \<Rightarrow> state \<Rightarrow> state option" where
  "modify p f s = do { u \<leftarrow> whenUsed s p; store p (WhenUsed (f u)) s }"

definition setNextFree :: "ptr \<Rightarrow> ptr \<Rightarrow> state \<Rightarrow> state option" where
  "setNextFree p nextFragment s = store p (NextFree nextFragment) s"

text \<open>\<^verbatim>\<open>memset\<close> to zero: as \<^verbatim>\<open>chunk.next\<close>, 32 zero bytes are the null pointer.\<close>

definition eraseFragment :: "ptr \<Rightarrow> state \<Rightarrow> state option" where
  "eraseFragment p s = store p (NextFree nullptr) s"

definition erasePool :: "chunk list" where
  "erasePool = replicate numFragments (NextFree nullptr)"

text \<open>The constructor: every fragment points to the next one, the last one to nothing.\<close>

definition FragmentPool :: state where
  "FragmentPool =
     (let d0 = erasePool;
          d1 = fold (\<lambda>i d. d[i - 1 := NextFree (Ptr i)]) [1..<numFragments] d0;
          d2 = d1[numFragments - 1 := NextFree nullptr]
      in \<lparr>data = d2, nextFreeFragment = Ptr 0, reports = []\<rparr>)"

definition allocate :: "state \<Rightarrow> (ptr \<times> state) option" where
  "allocate s =
     (if nextFreeFragment s = nullptr then Some (nullptr, on_out_of_memory s)
      else do {
        let freeFragment = nextFreeFragment s;
        n \<leftarrow> chunk_next s (nextFreeFragment s);
        Some (freeFragment, s\<lparr>nextFreeFragment := n\<rparr>)
      })"

definition deallocate :: "ptr \<Rightarrow> state \<Rightarrow> state option" where
  "deallocate p s = do {
     s \<leftarrow> eraseFragment p s;
     s \<leftarrow> setNextFree p (nextFreeFragment s) s;
     Some (s\<lparr>nextFreeFragment := p\<rparr>)
   }"

text \<open>The pointer difference, converted to \<^verbatim>\<open>char\<close>.\<close>

definition getIndexInPool :: "ptr \<Rightarrow> char8 option" where
  "getIndexInPool p = (case p of nullptr \<Rightarrow> None | Ptr i \<Rightarrow> Some (of_nat i))"

text \<open>\<open>data + idx\<close>: a pointer before the array is not formed.\<close>

definition getPointerAtIndex :: "char8 \<Rightarrow> ptr option" where
  "getPointerAtIndex idx = (if 0 \<le> sint idx then Some (Ptr (nat (sint idx))) else None)"

subsection \<open>ByteQueueFragment\<close>

definition getByte :: "fragment \<Rightarrow> char8 \<Rightarrow> byte option" where
  "getByte u idx =
     (if 0 \<le> sint idx \<and> sint idx < 28 then Some (bytes u ! nat (sint idx)) else None)"

definition getFrontByte :: "fragment \<Rightarrow> byte option" where
  "getFrontByte u = getByte u (m_frontItemIdx u)"

definition getBackFragment :: "fragment \<Rightarrow> ptr option" where
  "getBackFragment u =
     (if sint (m_backFragmentIdx u) = -1 then Some nullptr
      else getPointerAtIndex (m_backFragmentIdx u))"

definition getNextFragment :: "fragment \<Rightarrow> ptr option" where
  "getNextFragment u =
     (if sint (m_nextFragmentIdx u) = -1 then Some nullptr
      else getPointerAtIndex (m_nextFragmentIdx u))"

definition setBackFragmentIdx :: "ptr \<Rightarrow> char8 \<Rightarrow> state \<Rightarrow> state option" where
  "setBackFragmentIdx p backFragmentIdx = modify p (\<lambda>u. u\<lparr>m_backFragmentIdx := backFragmentIdx\<rparr>)"

definition setNextFragmentIdx :: "ptr \<Rightarrow> char8 \<Rightarrow> state \<Rightarrow> state option" where
  "setNextFragmentIdx p nextFragmentIdx = modify p (\<lambda>u. u\<lparr>m_nextFragmentIdx := nextFragmentIdx\<rparr>)"

definition setFrontItemIdx :: "ptr \<Rightarrow> char8 \<Rightarrow> state \<Rightarrow> state option" where
  "setFrontItemIdx p frontItemIdx = modify p (\<lambda>u. u\<lparr>m_frontItemIdx := frontItemIdx\<rparr>)"

definition setBackItemIdx :: "ptr \<Rightarrow> char8 \<Rightarrow> state \<Rightarrow> state option" where
  "setBackItemIdx p backItemIdx = modify p (\<lambda>u. u\<lparr>m_backItemIdx := backItemIdx\<rparr>)"

definition incrementFrontItemIdx :: "ptr \<Rightarrow> state \<Rightarrow> state option" where
  "incrementFrontItemIdx p = modify p (\<lambda>u. u\<lparr>m_frontItemIdx := m_frontItemIdx u + 1\<rparr>)"

definition incrementBackItemIdx :: "ptr \<Rightarrow> state \<Rightarrow> state option" where
  "incrementBackItemIdx p = modify p (\<lambda>u. u\<lparr>m_backItemIdx := m_backItemIdx u + 1\<rparr>)"

definition setByte :: "ptr \<Rightarrow> char8 \<Rightarrow> byte \<Rightarrow> state \<Rightarrow> state option" where
  "setByte p idx byte s =
     (if 0 \<le> sint idx \<and> sint idx < 28
      then modify p (\<lambda>u. u\<lparr>bytes := (bytes u)[nat (sint idx) := byte]\<rparr>) s
      else None)"

definition isEmpty :: "fragment \<Rightarrow> bool" where
  "isEmpty u \<longleftrightarrow>
     sint (m_frontItemIdx u) = -1 \<or> sint (m_backItemIdx u) < sint (m_frontItemIdx u)"

text \<open>The comparisons with \<^verbatim>\<open>sizeof(chunk.whenUsed.bytes) - 1\<close>: the promoted
  \<^verbatim>\<open>char\<close> equals the unsigned 27 exactly when its signed value is 27.\<close>

definition isFrontItemAtEnd :: "fragment \<Rightarrow> bool" where
  "isFrontItemAtEnd u \<longleftrightarrow> sint (m_frontItemIdx u) = 28 - 1"

definition isBackItemAtEnd :: "fragment \<Rightarrow> bool" where
  "isBackItemAtEnd u \<longleftrightarrow> sint (m_backItemIdx u) = 28 - 1"

text \<open>
  The four setters and \<^verbatim>\<open>clearBytes\<close> that follow an allocation assign every member
  of \<^verbatim>\<open>whenUsed\<close>, 4 + 28 bytes, which is the whole chunk: together they store one
  complete struct over the free-list pointer the chunk held.
\<close>

definition construct :: "ptr \<Rightarrow> char8 \<Rightarrow> char8 \<Rightarrow> char8 \<Rightarrow> char8 \<Rightarrow> state \<Rightarrow> state option" where
  "construct p backFragmentIdx nextFragmentIdx frontItemIdx backItemIdx s =
     store p (WhenUsed \<lparr>m_backFragmentIdx = backFragmentIdx,
                        m_nextFragmentIdx = nextFragmentIdx,
                        m_frontItemIdx = frontItemIdx,
                        m_backItemIdx = backItemIdx,
                        bytes = replicate 28 0\<rparr>) s"

subsection \<open>Operations\<close>

definition create_queue :: "state \<Rightarrow> (ptr \<times> state) option" where
  "create_queue s = do {
     (newFragment, s) \<leftarrow> allocate s;
     if newFragment = nullptr then Some (nullptr, s)
     else do {
       indexInPool \<leftarrow> getIndexInPool newFragment;
       s \<leftarrow> construct newFragment indexInPool (-1) (-1) (-1) s;
       Some (newFragment, s)
     }
   }"

text \<open>\<open>front\<close> is passed by reference: the operations return its new value.\<close>

definition enqueue_byte :: "ptr \<Rightarrow> byte \<Rightarrow> state \<Rightarrow> (ptr \<times> state) option" where
  "enqueue_byte front byte s = do {
     (front, s) \<leftarrow> (if front = nullptr then create_queue s else Some (front, s));
     if front = nullptr then Some (front, s)
     else do {
       fr \<leftarrow> whenUsed s front;
       currentBack \<leftarrow> getBackFragment fr;
       back \<leftarrow> whenUsed s currentBack;
       if isBackItemAtEnd back then do {
         (newBack, s) \<leftarrow> allocate s;
         if newBack = nullptr then Some (front, s)
         else do {
           newBackFragmentIdx \<leftarrow> getIndexInPool newBack;
           s \<leftarrow> setBackFragmentIdx front newBackFragmentIdx s;
           s \<leftarrow> setNextFragmentIdx currentBack newBackFragmentIdx s;
           s \<leftarrow> construct newBack (-1) (-1) (-1) 0 s;
           s \<leftarrow> setByte newBack 0 byte s;
           Some (front, s)
         }
       }
       else if sint (m_frontItemIdx fr) = -1 then do {
         s \<leftarrow> setFrontItemIdx front 0 s;
         s \<leftarrow> setBackItemIdx front 0 s;
         s \<leftarrow> setByte front 0 byte s;
         Some (front, s)
       }
       else do {
         s \<leftarrow> incrementBackItemIdx currentBack s;
         back \<leftarrow> whenUsed s currentBack;
         s \<leftarrow> setByte currentBack (m_backItemIdx back) byte s;
         Some (front, s)
       }
     }
   }"

definition dequeue_byte :: "ptr \<Rightarrow> state \<Rightarrow> (byte \<times> ptr \<times> state) option" where
  "dequeue_byte front s =
     (if front = nullptr then Some (0, front, on_illegal_operation s)
      else do {
        fr \<leftarrow> whenUsed s front;
        if isEmpty fr then Some (0, front, on_illegal_operation s)
        else do {
          dequeuedByte \<leftarrow> getFrontByte fr;
          if isFrontItemAtEnd fr then
            (if sint (m_nextFragmentIdx fr) = -1 then do {
               s \<leftarrow> deallocate front s;
               Some (dequeuedByte, nullptr, s)
             }
             else do {
               newFront \<leftarrow> getNextFragment fr;
               s \<leftarrow> setBackFragmentIdx newFront (m_backFragmentIdx fr) s;
               s \<leftarrow> setFrontItemIdx newFront 0 s;
               s \<leftarrow> deallocate front s;
               Some (dequeuedByte, newFront, s)
             })
          else do {
            s \<leftarrow> incrementFrontItemIdx front s;
            fr \<leftarrow> whenUsed s front;
            if isEmpty fr then do {
              s \<leftarrow> deallocate front s;
              Some (dequeuedByte, nullptr, s)
            }
            else Some (dequeuedByte, front, s)
          }
        }
      })"

text \<open>The loop of \<^verbatim>\<open>destroy_queue\<close>. Each round turns one used chunk into a free one,
  and reading the next index of a chunk that is not used stops the function, so the
  number of used chunks bounds the rounds.\<close>

definition isUsed :: "chunk \<Rightarrow> bool" where
  "isUsed c = (case c of WhenUsed u \<Rightarrow> True | NextFree n \<Rightarrow> False)"

definition numUsed :: "state \<Rightarrow> nat" where
  "numUsed s = length (filter isUsed (data s))"

lemma filter_update_less:
  "p < length xs \<Longrightarrow> P (xs ! p) \<Longrightarrow> \<not> P y \<Longrightarrow>
   length (filter P (xs[p := y])) < length (filter P xs)"
proof (induction xs arbitrary: p)
  case Nil
  then show ?case by simp
next
  case (Cons x xs)
  show ?case
  proof (cases p)
    case 0
    with Cons.prems show ?thesis by simp
  next
    case (Suc q)
    with Cons.prems have "length (filter P (xs[q := y])) < length (filter P xs)"
      by (intro Cons.IH) simp_all
    with Suc show ?thesis by simp
  qed
qed

lemma deallocate_numUsed:
  assumes "whenUsed s front = Some fr" and "deallocate front s = Some s'"
  shows "numUsed s' < numUsed s"
proof (cases front)
  case nullptr
  with assms show ?thesis by simp
next
  case (Ptr p)
  with assms(1) have p: "p < length (data s)" and u: "isUsed (data s ! p)"
    by (auto simp: isUsed_def split: if_splits chunk.splits)
  from assms(2) Ptr p have "data s' = (data s)[p := NextFree (nextFreeFragment s)]"
    by (auto simp: deallocate_def eraseFragment_def setNextFree_def)
  with filter_update_less [OF p, of isUsed "NextFree (nextFreeFragment s)"] u
  show ?thesis by (simp add: numUsed_def isUsed_def)
qed

function destroy_queue :: "ptr \<Rightarrow> state \<Rightarrow> (ptr \<times> state) option" where
  "destroy_queue front s =
     (if front = nullptr then Some (front, s)
      else do {
        fr \<leftarrow> whenUsed s front;
        nextFragment \<leftarrow> getNextFragment fr;
        s' \<leftarrow> deallocate front s;
        destroy_queue nextFragment s'
      })"
  by pat_completeness auto
termination
  by (relation "measure (\<lambda>(front, s). numUsed s)") (auto simp: deallocate_numUsed)

declare destroy_queue.simps [simp del]

subsection \<open>Callers\<close>

text \<open>
  A caller holds its queues in pointer variables, as \<^verbatim>\<open>main\<close> holds \<^verbatim>\<open>q0\<close> and
  \<^verbatim>\<open>q1\<close>, and passes a variable by reference to each operation, which updates it: the
  caller keeps no copy of a handle. A call names the variable by its position.
  \<open>Create_queue\<close> is \<^verbatim>\<open>ByteQueueFragment* q = create_queue()\<close> and \<open>Null_queue\<close> is
  \<^verbatim>\<open>ByteQueueFragment* q = nullptr\<close>; both declare a new variable. A step returns what
  the call returned (a dequeued byte), the variables and the state.
\<close>

datatype call =
    Null_queue
  | Create_queue
  | Enqueue_byte nat byte
  | Dequeue_byte nat
  | Destroy_queue nat

fun step :: "call \<Rightarrow> ptr list \<Rightarrow> state \<Rightarrow> (byte list \<times> ptr list \<times> state) option" where
  "step Null_queue qs s = Some ([], qs @ [nullptr], s)"
| "step Create_queue qs s = do {
     (q, s) \<leftarrow> create_queue s;
     Some ([], qs @ [q], s)
   }"
| "step (Enqueue_byte i byte) qs s =
     (if i < length qs then do {
        (q, s) \<leftarrow> enqueue_byte (qs ! i) byte s;
        Some ([], qs[i := q], s)
      } else None)"
| "step (Dequeue_byte i) qs s =
     (if i < length qs then do {
        (b, q, s) \<leftarrow> dequeue_byte (qs ! i) s;
        Some ([b], qs[i := q], s)
      } else None)"
| "step (Destroy_queue i) qs s =
     (if i < length qs then do {
        (q, s) \<leftarrow> destroy_queue (qs ! i) s;
        Some ([], qs[i := q], s)
      } else None)"

fun exec :: "call list \<Rightarrow> ptr list \<Rightarrow> state \<Rightarrow> (byte list \<times> ptr list \<times> state) option" where
  "exec [] qs s = Some ([], qs, s)"
| "exec (c # cs) qs s = do {
     (out, qs, s) \<leftarrow> step c qs s;
     (outs, qs, s) \<leftarrow> exec cs qs s;
     Some (out @ outs, qs, s)
   }"

text \<open>The states a caller can reach from the pool as its constructor leaves it.\<close>

inductive reachable :: "ptr list \<Rightarrow> state \<Rightarrow> bool" where
  start: "reachable [] FragmentPool"
| after: "reachable qs s \<Longrightarrow> step c qs s = Some (out, qs', s') \<Longrightarrow> reachable qs' s'"

text \<open>The calls of \<^verbatim>\<open>main\<close>; what it prints is what the calls of \<^verbatim>\<open>dequeue_byte\<close> returned.\<close>

definition main_calls :: "call list" where
  "main_calls =
     [Create_queue, Enqueue_byte 0 0, Enqueue_byte 0 1,
      Create_queue, Enqueue_byte 1 3,
      Enqueue_byte 0 2, Enqueue_byte 1 4,
      Dequeue_byte 0, Dequeue_byte 0,
      Enqueue_byte 0 5, Enqueue_byte 1 6,
      Dequeue_byte 0, Dequeue_byte 0,
      Destroy_queue 0,
      Dequeue_byte 1, Dequeue_byte 1, Dequeue_byte 1,
      Destroy_queue 1]"

definition main :: "(byte list \<times> ptr list \<times> state) option" where
  "main = exec main_calls [] FragmentPool"

subsection \<open>What a queue holds\<close>

text \<open>The fragments of a queue, from the front along the next indices. A pool of
  \<open>numFragments\<close> chunks has no longer chain without a repetition.\<close>

fun chain :: "nat \<Rightarrow> state \<Rightarrow> ptr \<Rightarrow> nat list" where
  "chain 0 s p = []"
| "chain (Suc n) s nullptr = []"
| "chain (Suc n) s (Ptr p) =
     (case whenUsed s (Ptr p) of
        None \<Rightarrow> []
      | Some u \<Rightarrow> p # (case getNextFragment u of None \<Rightarrow> [] | Some q \<Rightarrow> chain n s q))"

definition segments :: "state \<Rightarrow> ptr \<Rightarrow> nat list" where
  "segments s front = chain numFragments s front"

text \<open>The free list, from \<open>nextFreeFragment\<close> along \<^verbatim>\<open>chunk.next\<close>.\<close>

fun free_chain :: "nat \<Rightarrow> state \<Rightarrow> ptr \<Rightarrow> nat list" where
  "free_chain 0 s p = []"
| "free_chain (Suc n) s nullptr = []"
| "free_chain (Suc n) s (Ptr p) =
     (case chunk_next s (Ptr p) of None \<Rightarrow> [] | Some q \<Rightarrow> p # free_chain n s q)"

definition freeList :: "state \<Rightarrow> nat list" where
  "freeList s = free_chain numFragments s (nextFreeFragment s)"

text \<open>The bytes of a fragment that were enqueued and not yet dequeued: those from the
  front index (from 0 when the fragment has not been a front yet) to the back index.\<close>

definition items :: "fragment \<Rightarrow> byte list" where
  "items u =
     (let lo = (if sint (m_frontItemIdx u) = -1 then 0 else nat (sint (m_frontItemIdx u)));
          hi = nat (sint (m_backItemIdx u) + 1)
      in take (hi - lo) (drop lo (bytes u)))"

definition items_at :: "state \<Rightarrow> nat \<Rightarrow> byte list" where
  "items_at s p = (case whenUsed s (Ptr p) of None \<Rightarrow> [] | Some u \<Rightarrow> items u)"

definition queue_bytes :: "state \<Rightarrow> ptr \<Rightarrow> byte list" where
  "queue_bytes s front = concat (map (items_at s) (segments s front))"

section \<open>Invariant of the pool and its queues\<close>

text \<open>The next-fragment index that the fragment at position \<open>j\<close> of a chain \<open>c\<close> holds: the
  index of the fragment after it, and -1 at the back.\<close>

definition link :: "nat list \<Rightarrow> nat \<Rightarrow> char8" where
  "link c j = (if Suc j < length c then of_nat (c ! Suc j) else -1)"

text \<open>The fragment at position \<open>j\<close> of a queue whose fragments are \<open>c\<close>, front first: 28 bytes,
  the link to the next fragment, a back item index of at most 27 that is 27 unless the
  fragment is the back one; in the front fragment the index of the back fragment and a
  front item index from -1 (only in a queue without bytes) up to the back item index; in
  the other fragments a front item index of -1 and at least one byte.\<close>

definition seg_ok :: "nat list \<Rightarrow> nat \<Rightarrow> fragment \<Rightarrow> bool" where
  "seg_ok c j u \<longleftrightarrow>
     length (bytes u) = 28 \<and> m_nextFragmentIdx u = link c j \<and>
     sint (m_backItemIdx u) \<le> 27 \<and> (Suc j < length c \<longrightarrow> sint (m_backItemIdx u) = 27) \<and>
     (if j = 0
      then m_backFragmentIdx u = of_nat (last c) \<and> -1 \<le> sint (m_frontItemIdx u) \<and>
           sint (m_frontItemIdx u) \<le> sint (m_backItemIdx u) \<and>
           (sint (m_frontItemIdx u) = -1 \<longrightarrow> sint (m_backItemIdx u) = -1)
      else sint (m_frontItemIdx u) = -1 \<and> 0 \<le> sint (m_backItemIdx u))"

text \<open>The handle \<open>front\<close> is a queue whose fragments in the pool \<open>d\<close> are \<open>c\<close>, front first
  (none for \<^verbatim>\<open>nullptr\<close>).\<close>

definition queue_ok :: "chunk list \<Rightarrow> ptr \<Rightarrow> nat list \<Rightarrow> bool" where
  "queue_ok d front c \<longleftrightarrow>
     front = (case c of [] \<Rightarrow> nullptr | p # ps \<Rightarrow> Ptr p) \<and> distinct c \<and>
     (\<forall>j<length c. c ! j < length d \<and> (\<exists>u. d ! (c ! j) = WhenUsed u \<and> seg_ok c j u))"

text \<open>The free list that starts at \<open>p\<close> consists of the fragments \<open>fl\<close>, in this order.\<close>

fun free_path :: "chunk list \<Rightarrow> ptr \<Rightarrow> nat list \<Rightarrow> bool" where
  "free_path d p [] \<longleftrightarrow> p = nullptr"
| "free_path d p (x # xs) \<longleftrightarrow>
     p = Ptr x \<and> x < length d \<and> (\<exists>n. d ! x = NextFree n \<and> free_path d n xs)"

text \<open>The invariant of the pool and of the caller's variables \<open>qs\<close>: the free list is \<open>fl\<close>,
  the queue of variable \<open>i\<close> has the fragments \<open>cs ! i\<close>, and the free list and the queues
  share no fragment and together are the 64 fragments.\<close>

definition pool_ok :: "ptr list \<Rightarrow> state \<Rightarrow> nat list \<Rightarrow> nat list list \<Rightarrow> bool" where
  "pool_ok qs s fl cs \<longleftrightarrow>
     length (data s) = 64 \<and> length cs = length qs \<and>
     free_path (data s) (nextFreeFragment s) fl \<and> distinct fl \<and>
     (\<forall>i<length qs. queue_ok (data s) (qs ! i) (cs ! i) \<and> set (cs ! i) \<inter> set fl = {}) \<and>
     (\<forall>i<length qs. \<forall>j<length qs. i \<noteq> j \<longrightarrow> set (cs ! i) \<inter> set (cs ! j) = {}) \<and>
     (\<forall>x<64. x \<in> set fl \<or> (\<exists>i<length qs. x \<in> set (cs ! i)))"

text \<open>The bytes in the fragments \<open>c\<close>, front first.\<close>

definition contents :: "state \<Rightarrow> nat list \<Rightarrow> byte list" where
  "contents s c = concat (map (items_at s) c)"

text \<open>What an operation on one queue does to the invariant: from the free list \<open>fl\<close> and the
  queue \<open>c\<close> it makes the free list \<open>fl'\<close> and the queue \<open>c'\<close> (handle \<open>q'\<close>) out of the same
  fragments, and changes no other chunk.\<close>

definition local_step ::
  "state \<Rightarrow> nat list \<Rightarrow> nat list \<Rightarrow> state \<Rightarrow> ptr \<Rightarrow> nat list \<Rightarrow> nat list \<Rightarrow> bool" where
  "local_step s fl c s' q' fl' c' \<longleftrightarrow>
     length (data s') = 64 \<and> queue_ok (data s') q' c' \<and>
     free_path (data s') (nextFreeFragment s') fl' \<and> distinct fl' \<and>
     set c' \<inter> set fl' = {} \<and> set fl' \<union> set c' = set fl \<union> set c \<and>
     (\<forall>y. y \<notin> set fl \<and> y \<notin> set c \<longrightarrow> data s' ! y = data s ! y)"

text \<open>The number of bytes that fit in the back fragment of the queue \<open>c\<close> after its back
  item.\<close>

definition back_room :: "state \<Rightarrow> nat list \<Rightarrow> nat" where
  "back_room s c =
     (if c = [] then 0
      else case whenUsed s (Ptr (last c)) of
        None \<Rightarrow> 0 | Some u \<Rightarrow> nat (27 - sint (m_backItemIdx u)))"

text \<open>The number of bytes that can still be enqueued in the queue \<open>c\<close> when the free list
  is \<open>fl\<close>.\<close>

definition room_g :: "state \<Rightarrow> nat list \<Rightarrow> nat list \<Rightarrow> nat" where
  "room_g s fl c = back_room s c + 28 * length fl"

text \<open>The elements of a list from index \<open>lo\<close> up to, not including, \<open>hi\<close>; the bounds of
  \<open>items\<close>.\<close>

definition slice :: "nat \<Rightarrow> nat \<Rightarrow> 'a list \<Rightarrow> 'a list" where
  "slice lo hi bs = take (hi - lo) (drop lo bs)"

definition lo_of :: "fragment \<Rightarrow> nat" where
  "lo_of u = (if sint (m_frontItemIdx u) = -1 then 0 else nat (sint (m_frontItemIdx u)))"

definition hi_of :: "fragment \<Rightarrow> nat" where
  "hi_of u = nat (sint (m_backItemIdx u) + 1)"

text \<open>The result \<open>r\<close> of \<^verbatim>\<open>enqueue_byte\<close> on a queue \<open>c\<close> with free list \<open>fl\<close>: when no byte
  fits, the state with an out-of-memory report and nothing else changed; otherwise the
  byte is appended, no report is made and the room is one less.\<close>

definition enq_post ::
  "state \<Rightarrow> nat list \<Rightarrow> nat list \<Rightarrow> ptr \<Rightarrow> byte \<Rightarrow> (ptr \<times> state) option \<Rightarrow> bool" where
  "enq_post s fl c q x r \<longleftrightarrow>
     (\<exists>q' s' fl' c'. r = Some (q', s') \<and> local_step s fl c s' q' fl' c' \<and>
        (if room_g s fl c = 0
         then s' = on_out_of_memory s \<and> q' = q \<and> fl' = fl \<and> c' = c
         else reports s' = reports s \<and> contents s' c' = contents s c @ [x] \<and>
              room_g s' fl' c' + 1 = room_g s fl c))"

text \<open>The result \<open>r\<close> of \<^verbatim>\<open>dequeue_byte\<close> on a queue \<open>c\<close> with free list \<open>fl\<close>: on a queue
  without bytes, 0 and the state with a report; otherwise the first byte, without a
  report, and a queue that holds the other bytes and exists only if there are some.\<close>

definition deq_post ::
  "state \<Rightarrow> nat list \<Rightarrow> nat list \<Rightarrow> ptr \<Rightarrow> (byte \<times> ptr \<times> state) option \<Rightarrow> bool" where
  "deq_post s fl c q r \<longleftrightarrow>
     (\<exists>b q' s' fl' c'. r = Some (b, q', s') \<and> local_step s fl c s' q' fl' c' \<and>
        (if contents s c = []
         then b = 0 \<and> s' = on_illegal_operation s \<and> q' = q \<and> fl' = fl \<and> c' = c
         else reports s' = reports s \<and> contents s c = b # contents s' c' \<and>
              (c' = [] \<or> contents s' c' \<noteq> [])))"

text \<open>The pointer to the first fragment of a chain.\<close>

definition head_ptr :: "nat list \<Rightarrow> ptr" where
  "head_ptr c = (case c of [] \<Rightarrow> nullptr | p # ps \<Rightarrow> Ptr p)"

text \<open>The fragments \<open>c\<close> are used and each one's \<^verbatim>\<open>getNextFragment\<close> is the next one.\<close>

fun linked :: "chunk list \<Rightarrow> nat list \<Rightarrow> bool" where
  "linked d [] \<longleftrightarrow> True"
| "linked d (x # xs) \<longleftrightarrow>
     x < length d \<and> x < 64 \<and>
     (\<exists>u. d ! x = WhenUsed u \<and> getNextFragment u = Some (head_ptr xs)) \<and> linked d xs"

text \<open>The state after \<^verbatim>\<open>deallocate\<close> of fragment \<open>p\<close>, and after that of a list of
  fragments.\<close>

definition release_one :: "nat \<Rightarrow> state \<Rightarrow> state" where
  "release_one p s =
     s\<lparr>data := (data s)[p := NextFree (nextFreeFragment s)], nextFreeFragment := Ptr p\<rparr>"

definition release :: "nat list \<Rightarrow> state \<Rightarrow> state" where
  "release c s = fold release_one c s"

text \<open>The result \<open>r\<close> of \<^verbatim>\<open>destroy_queue\<close> on a queue \<open>c\<close> with free list \<open>fl\<close>.\<close>

definition destroy_post ::
  "state \<Rightarrow> nat list \<Rightarrow> nat list \<Rightarrow> ptr \<Rightarrow> (ptr \<times> state) option \<Rightarrow> bool" where
  "destroy_post s fl c q r \<longleftrightarrow>
     (\<exists>s'. r = Some (nullptr, s') \<and> local_step s fl c s' nullptr (rev c @ fl) [] \<and>
        reports s' = reports s \<and> (c = [] \<longrightarrow> s' = s))"

text \<open>The result \<open>r\<close> of \<^verbatim>\<open>create_queue\<close> with free list \<open>fl\<close>.\<close>

definition create_post :: "state \<Rightarrow> nat list \<Rightarrow> (ptr \<times> state) option \<Rightarrow> bool" where
  "create_post s fl r \<longleftrightarrow>
     (\<exists>q' s' fl' c'. r = Some (q', s') \<and> local_step s fl [] s' q' fl' c' \<and>
        (if fl = []
         then s' = on_out_of_memory s \<and> q' = nullptr \<and> fl' = fl \<and> c' = []
         else reports s' = reports s \<and> q' \<noteq> nullptr \<and> fl = c' @ fl' \<and> length c' = 1 \<and>
              contents s' c' = []))"

text \<open>A caller's loops: \<^verbatim>\<open>enqueue_byte\<close> for each byte of a list, and \<open>n\<close> calls of
  \<^verbatim>\<open>dequeue_byte\<close>, which collect the bytes returned.\<close>

fun enqueue_bytes :: "ptr \<Rightarrow> byte list \<Rightarrow> state \<Rightarrow> (ptr \<times> state) option" where
  "enqueue_bytes front [] s = Some (front, s)"
| "enqueue_bytes front (b # bs) s = do {
     (front, s) \<leftarrow> enqueue_byte front b s;
     enqueue_bytes front bs s
   }"

fun dequeue_bytes :: "nat \<Rightarrow> ptr \<Rightarrow> state \<Rightarrow> (byte list \<times> ptr \<times> state) option" where
  "dequeue_bytes 0 front s = Some ([], front, s)"
| "dequeue_bytes (Suc n) front s = do {
     (b, front, s) \<leftarrow> dequeue_byte front s;
     (bs, front, s) \<leftarrow> dequeue_bytes n front s;
     Some (b # bs, front, s)
   }"

text \<open>The number of bytes that can still be enqueued in a queue: the places after the back
  item of its back fragment, and 28 for every fragment on the free list.\<close>

definition room :: "state \<Rightarrow> ptr \<Rightarrow> nat" where
  "room s front = room_g s (freeList s) (segments s front)"

text \<open>The caller's variables and the state after a list of calls, from the pool as its
  constructor leaves it (nothing if a call is undefined).\<close>

definition run :: "call list \<Rightarrow> ptr list \<times> state" where
  "run cs =
     (case exec cs [] FragmentPool of
        None \<Rightarrow> ([], FragmentPool)
      | Some (out, qs, s) \<Rightarrow> (qs, s))"

text \<open>The test of \<^verbatim>\<open>enqueue_byte\<close> that sends it to \<^verbatim>\<open>allocate\<close>: the back fragment
  of the queue has its last byte at the end of the array.\<close>

definition back_full :: "state \<Rightarrow> ptr \<Rightarrow> bool" where
  "back_full s front =
     (case whenUsed s front of
        None \<Rightarrow> False
      | Some fr \<Rightarrow>
          (case getBackFragment fr of
             None \<Rightarrow> False
           | Some currentBack \<Rightarrow>
               (case whenUsed s currentBack of
                  None \<Rightarrow> False
                | Some back \<Rightarrow> isBackItemAtEnd back)))"

text \<open>63 queues, and one more queue that holds 28 bytes: every fragment is used and the
  back fragment of the last queue is full.\<close>

definition full_calls :: "call list" where
  "full_calls = replicate 63 Create_queue @ Null_queue # map (Enqueue_byte 63) (replicate 28 5)"

text \<open>One queue of 30 bytes, which lie in two fragments.\<close>

definition two_fragment_calls :: "call list" where
  "two_fragment_calls = Null_queue # map (Enqueue_byte 0) (replicate 30 5)"

text \<open>What the caller's queues hold after each call of a list of calls: \<open>f\<close> of the state
  and of every queue variable.\<close>

fun trace :: "(state \<Rightarrow> ptr \<Rightarrow> 'a) \<Rightarrow> call list \<Rightarrow> ptr list \<Rightarrow> state \<Rightarrow> 'a list list" where
  "trace f [] qs s = []"
| "trace f (c # cs) qs s =
     (case step c qs s of
        None \<Rightarrow> []
      | Some (out, qs', s') \<Rightarrow> map (f s') qs' # trace f cs qs' s')"

section \<open>Proofs\<close>

subsection \<open>Words, indices and pointers\<close>

lemma sint_of_nat_fragment: "p < 64 \<Longrightarrow> sint (of_nat p :: 8 word) = int p"
  by (simp add: signed_of_nat signed_take_bit_int_eq_self)

lemma sint_minus1_iff: "sint (x :: 8 word) = -1 \<longleftrightarrow> x = -1"
  by (metis signed_minus_1 signed_word_eqI)

lemma sint_succ: "sint (x :: 8 word) < 127 \<Longrightarrow> sint (x + 1) = sint x + 1"
  using sint_ge [of x] by (simp add: sint_word_ariths signed_take_bit_int_eq_self)

lemma getPointerAtIndex_of_nat: "p < 64 \<Longrightarrow> getPointerAtIndex (of_nat p) = Some (Ptr p)"
  by (simp add: getPointerAtIndex_def sint_of_nat_fragment)

lemma getIndexInPool_Ptr: "getIndexInPool (Ptr p) = Some (of_nat p)"
  by (simp add: getIndexInPool_def)

lemma of_nat_fragment_neq: "p < 64 \<Longrightarrow> sint (of_nat p :: 8 word) \<noteq> -1"
  by (simp add: sint_of_nat_fragment)

lemma whenUsed_Some_iff:
  "whenUsed s (Ptr p) = Some u \<longleftrightarrow> p < length (data s) \<and> data s ! p = WhenUsed u"
  by (auto split: chunk.splits)

lemma chunk_next_Some_iff:
  "chunk_next s (Ptr p) = Some n \<longleftrightarrow> p < length (data s) \<and> data s ! p = NextFree n"
  by (auto split: chunk.splits)

lemma getBackFragment_of_nat:
  "m_backFragmentIdx u = of_nat l \<Longrightarrow> l < 64 \<Longrightarrow> getBackFragment u = Some (Ptr l)"
  by (simp add: getBackFragment_def getPointerAtIndex_of_nat sint_of_nat_fragment)

lemma getNextFragment_of_nat:
  "m_nextFragmentIdx u = of_nat l \<Longrightarrow> l < 64 \<Longrightarrow> getNextFragment u = Some (Ptr l)"
  by (simp add: getNextFragment_def getPointerAtIndex_of_nat sint_of_nat_fragment)

lemma getNextFragment_none:
  "m_nextFragmentIdx u = -1 \<Longrightarrow> getNextFragment u = Some nullptr"
  by (simp add: getNextFragment_def)

subsection \<open>The branches of enqueue_byte and create_queue\<close>

lemma modify_used:
  "p < length (data s) \<Longrightarrow> data s ! p = WhenUsed u \<Longrightarrow>
   modify (Ptr p) f s = Some (s\<lparr>data := (data s)[p := WhenUsed (f u)]\<rparr>)"
  by (simp add: modify_def)

lemma enqueue_incr:
  assumes "f < length (data s)" "data s ! f = WhenUsed fr"
    and "m_backFragmentIdx fr = of_nat l" "l < 64"
    and "l < length (data s)" "data s ! l = WhenUsed bk"
    and "sint (m_backItemIdx bk) \<noteq> 27" "-1 \<le> sint (m_backItemIdx bk)" "sint (m_backItemIdx bk) \<le> 27"
    and "sint (m_frontItemIdx fr) \<noteq> -1"
  shows "enqueue_byte (Ptr f) x s =
    Some (Ptr f, s\<lparr>data := (data s)[l := WhenUsed (bk\<lparr>m_backItemIdx := m_backItemIdx bk + 1,
        bytes := (bytes bk)[nat (sint (m_backItemIdx bk) + 1) := x]\<rparr>)]\<rparr>)"
  using assms
  by (simp add: enqueue_byte_def getBackFragment_of_nat isBackItemAtEnd_def
      incrementBackItemIdx_def setByte_def modify_used sint_succ)

lemma enqueue_first:
  assumes "f < length (data s)" "data s ! f = WhenUsed fr"
    and "m_backFragmentIdx fr = of_nat f" "f < 64"
    and "sint (m_backItemIdx fr) \<noteq> 27"
    and "sint (m_frontItemIdx fr) = -1"
  shows "enqueue_byte (Ptr f) x s =
    Some (Ptr f, s\<lparr>data := (data s)[f := WhenUsed (fr\<lparr>m_frontItemIdx := 0, m_backItemIdx := 0,
        bytes := (bytes fr)[0 := x]\<rparr>)]\<rparr>)"
  using assms
  by (simp add: enqueue_byte_def getBackFragment_of_nat isBackItemAtEnd_def
      setFrontItemIdx_def setBackItemIdx_def setByte_def modify_used)

lemma allocate_free:
  "nextFreeFragment s = Ptr n \<Longrightarrow> n < length (data s) \<Longrightarrow> data s ! n = NextFree m \<Longrightarrow>
   allocate s = Some (Ptr n, s\<lparr>nextFreeFragment := m\<rparr>)"
  by (simp add: allocate_def)

lemma allocate_none:
  "nextFreeFragment s = nullptr \<Longrightarrow> allocate s = Some (nullptr, on_out_of_memory s)"
  by (simp add: allocate_def)

lemma enqueue_grow:
  assumes "f < length (data s)" "data s ! f = WhenUsed fr"
    and "m_backFragmentIdx fr = of_nat l" "l < 64"
    and "l < length (data s)" "data s ! l = WhenUsed bk"
    and "sint (m_backItemIdx bk) = 27"
    and "nextFreeFragment s = Ptr n" "n < length (data s)" "data s ! n = NextFree m"
  shows "enqueue_byte (Ptr f) x s =
    Some (Ptr f, s\<lparr>data := (data s)[f := WhenUsed (fr\<lparr>m_backFragmentIdx := of_nat n\<rparr>),
          l := WhenUsed ((if l = f then fr\<lparr>m_backFragmentIdx := of_nat n\<rparr> else bk)\<lparr>m_nextFragmentIdx := of_nat n\<rparr>),
          n := WhenUsed \<lparr>m_backFragmentIdx = -1, m_nextFragmentIdx = -1, m_frontItemIdx = -1,
                          m_backItemIdx = 0, bytes = (replicate 28 0)[0 := x]\<rparr>],
        nextFreeFragment := m\<rparr>)"
  using assms
  by (auto simp add: enqueue_byte_def getBackFragment_of_nat isBackItemAtEnd_def allocate_free
      getIndexInPool_Ptr setBackFragmentIdx_def setNextFragmentIdx_def
      construct_def setByte_def modify_used)

lemma enqueue_full:
  assumes "f < length (data s)" "data s ! f = WhenUsed fr"
    and "m_backFragmentIdx fr = of_nat l" "l < 64"
    and "l < length (data s)" "data s ! l = WhenUsed bk"
    and "sint (m_backItemIdx bk) = 27"
    and "nextFreeFragment s = nullptr"
  shows "enqueue_byte (Ptr f) x s = Some (Ptr f, on_out_of_memory s)"
  using assms
  by (simp add: enqueue_byte_def getBackFragment_of_nat isBackItemAtEnd_def allocate_none)

lemma create_queue_free:
  assumes "nextFreeFragment s = Ptr n" "n < length (data s)" "data s ! n = NextFree m"
  shows "create_queue s = Some (Ptr n, s\<lparr>data := (data s)[n := WhenUsed
      \<lparr>m_backFragmentIdx = of_nat n, m_nextFragmentIdx = -1, m_frontItemIdx = -1,
       m_backItemIdx = -1, bytes = replicate 28 0\<rparr>], nextFreeFragment := m\<rparr>)"
  using assms by (simp add: create_queue_def allocate_free getIndexInPool_Ptr construct_def)

lemma create_queue_none:
  "nextFreeFragment s = nullptr \<Longrightarrow> create_queue s = Some (nullptr, on_out_of_memory s)"
  by (simp add: create_queue_def allocate_none)

lemma enqueue_null_none:
  "nextFreeFragment s = nullptr \<Longrightarrow> enqueue_byte nullptr x s = Some (nullptr, on_out_of_memory s)"
  by (simp add: enqueue_byte_def create_queue_none)

lemma enqueue_null_free:
  assumes "nextFreeFragment s = Ptr n" "n < length (data s)" "data s ! n = NextFree m" "n < 64"
  shows "enqueue_byte nullptr x s = Some (Ptr n, s\<lparr>data := (data s)[n := WhenUsed
      \<lparr>m_backFragmentIdx = of_nat n, m_nextFragmentIdx = -1, m_frontItemIdx = 0,
       m_backItemIdx = 0, bytes = (replicate 28 0)[0 := x]\<rparr>], nextFreeFragment := m\<rparr>)"
  using assms
  by (simp add: enqueue_byte_def create_queue_free getBackFragment_of_nat isBackItemAtEnd_def
      setFrontItemIdx_def setBackItemIdx_def setByte_def modify_used)

subsection \<open>The branches of dequeue_byte\<close>

lemma dequeue_null: "dequeue_byte nullptr s = Some (0, nullptr, on_illegal_operation s)"
  by (simp add: dequeue_byte_def)

lemma dequeue_empty:
  "f < length (data s) \<Longrightarrow> data s ! f = WhenUsed fr \<Longrightarrow> isEmpty fr \<Longrightarrow>
   dequeue_byte (Ptr f) s = Some (0, Ptr f, on_illegal_operation s)"
  by (simp add: dequeue_byte_def)

lemma deallocate_Ptr:
  "p < length (data s) \<Longrightarrow>
   deallocate (Ptr p) s =
     Some (s\<lparr>data := (data s)[p := NextFree (nextFreeFragment s)], nextFreeFragment := Ptr p\<rparr>)"
  by (simp add: deallocate_def eraseFragment_def setNextFree_def)

lemma dequeue_last:
  assumes "f < length (data s)" "data s ! f = WhenUsed fr"
    and "sint (m_frontItemIdx fr) = 27" "sint (m_backItemIdx fr) = 27"
    and "m_nextFragmentIdx fr = -1"
  shows "dequeue_byte (Ptr f) s =
    Some (bytes fr ! 27, nullptr,
      s\<lparr>data := (data s)[f := NextFree (nextFreeFragment s)], nextFreeFragment := Ptr f\<rparr>)"
  using assms
  by (simp add: dequeue_byte_def isEmpty_def getFrontByte_def getByte_def isFrontItemAtEnd_def
      deallocate_Ptr)

lemma dequeue_promote:
  assumes "f < length (data s)" "data s ! f = WhenUsed fr"
    and "sint (m_frontItemIdx fr) = 27" "sint (m_backItemIdx fr) = 27"
    and "m_nextFragmentIdx fr = of_nat y" "y < 64" "y < length (data s)" "data s ! y = WhenUsed uy"
    and "y \<noteq> f"
  shows "dequeue_byte (Ptr f) s =
    Some (bytes fr ! 27, Ptr y,
      s\<lparr>data := (data s)[y := WhenUsed (uy\<lparr>m_backFragmentIdx := m_backFragmentIdx fr, m_frontItemIdx := 0\<rparr>),
                          f := NextFree (nextFreeFragment s)],
        nextFreeFragment := Ptr f\<rparr>)"
  using assms
  by (simp add: dequeue_byte_def isEmpty_def getFrontByte_def getByte_def isFrontItemAtEnd_def
      deallocate_Ptr getNextFragment_of_nat sint_of_nat_fragment setBackFragmentIdx_def
      setFrontItemIdx_def modify_used)

lemma dequeue_only:
  assumes "f < length (data s)" "data s ! f = WhenUsed fr"
    and "0 \<le> sint (m_frontItemIdx fr)" "sint (m_frontItemIdx fr) < 27"
    and "sint (m_backItemIdx fr) = sint (m_frontItemIdx fr)"
  shows "dequeue_byte (Ptr f) s =
    Some (bytes fr ! nat (sint (m_frontItemIdx fr)), nullptr,
      s\<lparr>data := (data s)[f := NextFree (nextFreeFragment s)], nextFreeFragment := Ptr f\<rparr>)"
  using assms
  by (simp add: dequeue_byte_def isEmpty_def getFrontByte_def getByte_def isFrontItemAtEnd_def
      deallocate_Ptr incrementFrontItemIdx_def modify_used sint_succ)

lemma dequeue_more:
  assumes "f < length (data s)" "data s ! f = WhenUsed fr"
    and "0 \<le> sint (m_frontItemIdx fr)" "sint (m_frontItemIdx fr) < 27"
    and "sint (m_frontItemIdx fr) < sint (m_backItemIdx fr)"
  shows "dequeue_byte (Ptr f) s =
    Some (bytes fr ! nat (sint (m_frontItemIdx fr)), Ptr f,
      s\<lparr>data := (data s)[f := WhenUsed (fr\<lparr>m_frontItemIdx := m_frontItemIdx fr + 1\<rparr>)]\<rparr>)"
  using assms
  by (simp add: dequeue_byte_def isEmpty_def getFrontByte_def getByte_def isFrontItemAtEnd_def
      incrementFrontItemIdx_def modify_used sint_succ)

subsection \<open>The invariant under changes elsewhere\<close>

lemma queue_ok_frame:
  assumes "queue_ok d q c" "length d' = length d" "\<forall>x\<in>set c. d' ! x = d ! x"
  shows "queue_ok d' q c"
  using assms unfolding queue_ok_def by (auto simp: nth_mem)

lemma free_path_frame:
  assumes "free_path d p fl" "length d' = length d" "\<forall>x\<in>set fl. d' ! x = d ! x"
  shows "free_path d' p fl"
  using assms by (induction fl arbitrary: p) auto

lemma pool_ok_length: "pool_ok qs s fl cs \<Longrightarrow> length (data s) = 64 \<and> length cs = length qs"
  by (simp add: pool_ok_def)

lemma pool_ok_free: "pool_ok qs s fl cs \<Longrightarrow> free_path (data s) (nextFreeFragment s) fl \<and> distinct fl"
  by (simp add: pool_ok_def)

lemma pool_ok_queue:
  "pool_ok qs s fl cs \<Longrightarrow> i < length qs \<Longrightarrow>
   queue_ok (data s) (qs ! i) (cs ! i) \<and> set (cs ! i) \<inter> set fl = {}"
  by (simp add: pool_ok_def)

lemma pool_ok_disjoint:
  "pool_ok qs s fl cs \<Longrightarrow> i < length qs \<Longrightarrow> j < length qs \<Longrightarrow> i \<noteq> j \<Longrightarrow>
   set (cs ! i) \<inter> set (cs ! j) = {}"
  by (simp add: pool_ok_def)

lemma pool_ok_cover:
  "pool_ok qs s fl cs \<Longrightarrow> x < 64 \<Longrightarrow> x \<in> set fl \<or> (\<exists>i<length qs. x \<in> set (cs ! i))"
  by (simp add: pool_ok_def)

lemma pool_okI:
  assumes "length (data s) = 64" "length cs = length qs"
    and "free_path (data s) (nextFreeFragment s) fl" "distinct fl"
    and "\<And>i. i < length qs \<Longrightarrow> queue_ok (data s) (qs ! i) (cs ! i) \<and> set (cs ! i) \<inter> set fl = {}"
    and "\<And>i j. i < length qs \<Longrightarrow> j < length qs \<Longrightarrow> i \<noteq> j \<Longrightarrow> set (cs ! i) \<inter> set (cs ! j) = {}"
    and "\<And>x. x < 64 \<Longrightarrow> x \<in> set fl \<or> (\<exists>i<length qs. x \<in> set (cs ! i))"
  shows "pool_ok qs s fl cs"
  unfolding pool_ok_def using assms by blast

lemma pool_ok_local:
  assumes ok: "pool_ok qs s fl cs" and i: "i < length qs"
    and len: "length (data s') = 64"
    and fp: "free_path (data s') (nextFreeFragment s') fl'" and dfl: "distinct fl'"
    and q: "queue_ok (data s') q' c'" and disj: "set c' \<inter> set fl' = {}"
    and same: "set fl' \<union> set c' = set fl \<union> set (cs ! i)"
    and frame: "\<And>x. x \<notin> set fl \<Longrightarrow> x \<notin> set (cs ! i) \<Longrightarrow> data s' ! x = data s ! x"
  shows "pool_ok (qs[i := q']) s' fl' (cs[i := c'])"
proof (rule pool_okI)
  from ok have lcs: "length cs = length qs" and ld: "length (data s) = 64"
    by (simp_all add: pool_ok_length)
  show "length (data s') = 64" by (rule len)
  show "length (cs[i := c']) = length (qs[i := q'])" using lcs by simp
  show "free_path (data s') (nextFreeFragment s') fl'" by (rule fp)
  show "distinct fl'" by (rule dfl)
  have other: "queue_ok (data s') (qs ! j) (cs ! j) \<and> set (cs ! j) \<inter> set fl' = {} \<and>
      set (cs ! j) \<inter> set c' = {}"
    if j: "j < length qs" "j \<noteq> i" for j
  proof -
    from pool_ok_queue [OF ok j(1)]
    have a: "queue_ok (data s) (qs ! j) (cs ! j)" and b: "set (cs ! j) \<inter> set fl = {}"
      by simp_all
    from pool_ok_disjoint [OF ok j(1) i j(2)] have c: "set (cs ! j) \<inter> set (cs ! i) = {}" .
    from b c frame have fr: "\<forall>x\<in>set (cs ! j). data s' ! x = data s ! x" by blast
    have "queue_ok (data s') (qs ! j) (cs ! j)"
      by (rule queue_ok_frame [OF a]) (use len ld fr in simp_all)
    moreover from b c same have "set (cs ! j) \<inter> set fl' = {}" "set (cs ! j) \<inter> set c' = {}"
      by blast+
    ultimately show ?thesis by simp
  qed
  show "queue_ok (data s') (qs[i := q'] ! j) (cs[i := c'] ! j) \<and>
      set (cs[i := c'] ! j) \<inter> set fl' = {}" if "j < length (qs[i := q'])" for j
  proof (cases "j = i")
    case True
    with q disj i lcs show ?thesis by simp
  next
    case False
    with that other [of j] show ?thesis by simp
  qed
  show "set (cs[i := c'] ! j) \<inter> set (cs[i := c'] ! k) = {}"
    if "j < length (qs[i := q'])" "k < length (qs[i := q'])" "j \<noteq> k" for j k
  proof -
    consider "j = i" | "k = i" | "j \<noteq> i" "k \<noteq> i" by blast
    then show ?thesis
    proof cases
      case 1
      with that other [of k] i lcs show ?thesis by (simp add: Int_commute)
    next
      case 2
      with that other [of j] i lcs show ?thesis by simp
    next
      case 3
      with that pool_ok_disjoint [OF ok, of j k] show ?thesis by simp
    qed
  qed
  show "x \<in> set fl' \<or> (\<exists>j<length (qs[i := q']). x \<in> set (cs[i := c'] ! j))" if "x < 64" for x
  proof -
    from pool_ok_cover [OF ok that]
    consider "x \<in> set fl \<union> set (cs ! i)" | j where "j < length qs" "j \<noteq> i" "x \<in> set (cs ! j)"
      by blast
    then show ?thesis
    proof cases
      case 1
      with same have "x \<in> set fl' \<or> x \<in> set c'" by blast
      then show ?thesis
      proof
        assume "x \<in> set fl'" then show ?thesis ..
      next
        assume "x \<in> set c'"
        with i lcs have "i < length (qs[i := q']) \<and> x \<in> set (cs[i := c'] ! i)" by simp
        then show ?thesis by blast
      qed
    next
      case 2
      then have "j < length (qs[i := q']) \<and> x \<in> set (cs[i := c'] ! j)" by simp
      then show ?thesis by blast
    qed
  qed
qed

lemma queue_ok_null: "queue_ok d nullptr []"
  by (simp add: queue_ok_def)

lemma pool_ok_Null:
  assumes ok: "pool_ok qs s fl cs"
  shows "pool_ok (qs @ [nullptr]) s fl (cs @ [[]])"
proof (rule pool_okI)
  from ok have lcs: "length cs = length qs" by (simp add: pool_ok_length)
  show "length (data s) = 64" using ok by (simp add: pool_ok_length)
  show "length (cs @ [[]]) = length (qs @ [nullptr])" using lcs by simp
  show "free_path (data s) (nextFreeFragment s) fl" "distinct fl"
    using ok by (simp_all add: pool_ok_free)
  show "queue_ok (data s) ((qs @ [nullptr]) ! i) ((cs @ [[]]) ! i) \<and>
      set ((cs @ [[]]) ! i) \<inter> set fl = {}" if "i < length (qs @ [nullptr])" for i
    using that pool_ok_queue [OF ok, of i] lcs
    by (cases "i < length qs") (simp_all add: nth_append queue_ok_null)
  show "set ((cs @ [[]]) ! i) \<inter> set ((cs @ [[]]) ! j) = {}"
    if "i < length (qs @ [nullptr])" "j < length (qs @ [nullptr])" "i \<noteq> j" for i j
    using that pool_ok_disjoint [OF ok, of i j] lcs
    by (cases "i < length qs"; cases "j < length qs") (simp_all add: nth_append)
  show "x \<in> set fl \<or> (\<exists>i<length (qs @ [nullptr]). x \<in> set ((cs @ [[]]) ! i))"
    if "x < 64" for x
  proof -
    from pool_ok_cover [OF ok that] show ?thesis
    proof
      assume "x \<in> set fl" then show ?thesis ..
    next
      assume "\<exists>i<length qs. x \<in> set (cs ! i)"
      then obtain i where "i < length qs" "x \<in> set (cs ! i)" by blast
      with lcs have "i < length (qs @ [nullptr]) \<and> x \<in> set ((cs @ [[]]) ! i)"
        by (simp add: nth_append)
      then show ?thesis by blast
    qed
  qed
qed

lemma pool_ok_reports:
  "pool_ok qs (s\<lparr>reports := r\<rparr>) fl cs = pool_ok qs s fl cs"
  by (simp add: pool_ok_def)

lemma pool_ok_step:
  assumes "pool_ok qs s fl cs" "i < length qs" "local_step s fl (cs ! i) s' q' fl' c'"
  shows "pool_ok (qs[i := q']) s' fl' (cs[i := c'])"
  using assms(3) unfolding local_step_def
  by (intro pool_ok_local [OF assms(1,2)]) blast+

lemma queue_ok_nth:
  "queue_ok d q c \<Longrightarrow> j < length c \<Longrightarrow>
   c ! j < length d \<and> (\<exists>u. d ! (c ! j) = WhenUsed u \<and> seg_ok c j u)"
  by (simp add: queue_ok_def)

lemma queue_ok_front: "queue_ok d q (p # ps) \<Longrightarrow> q = Ptr p"
  by (simp add: queue_ok_def)

lemma queue_ok_empty: "queue_ok d q [] \<Longrightarrow> q = nullptr"
  by (simp add: queue_ok_def)

lemma queue_ok_distinct: "queue_ok d q c \<Longrightarrow> distinct c"
  by (simp add: queue_ok_def)

lemma queue_ok_update:
  assumes q: "queue_ok d q c" and k: "k < length c" and u: "seg_ok c k u'"
  shows "queue_ok (d[c ! k := WhenUsed u']) q c"
  unfolding queue_ok_def
proof (intro conjI allI impI)
  from q show "q = (case c of [] \<Rightarrow> nullptr | p # ps \<Rightarrow> Ptr p)" "distinct c"
    by (simp_all add: queue_ok_def)
  fix j assume j: "j < length c"
  from queue_ok_nth [OF q j] show "c ! j < length (d[c ! k := WhenUsed u'])" by simp
  show "\<exists>u. d[c ! k := WhenUsed u'] ! (c ! j) = WhenUsed u \<and> seg_ok c j u"
  proof (cases "j = k")
    case True
    with queue_ok_nth [OF q k] u show ?thesis by simp
  next
    case False
    with j k queue_ok_distinct [OF q] have "c ! j \<noteq> c ! k"
      by (simp add: nth_eq_iff_index_eq)
    with queue_ok_nth [OF q j] show ?thesis by simp
  qed
qed

lemma contents_append: "contents s (a @ b) = contents s a @ contents s b"
  by (simp add: contents_def)

lemma contents_Cons: "contents s (p # c) = items_at s p @ contents s c"
  by (simp add: contents_def)

lemma contents_Nil: "contents s [] = []"
  by (simp add: contents_def)

lemma contents_frame:
  "(\<And>x. x \<in> set c \<Longrightarrow> items_at s' x = items_at s x) \<Longrightarrow> contents s' c = contents s c"
  by (simp add: contents_def cong: map_cong)

lemma items_at_used:
  "p < length (data s) \<Longrightarrow> data s ! p = WhenUsed u \<Longrightarrow> items_at s p = items u"
  by (simp add: items_at_def)

lemma items_at_update:
  "p < length (data s) \<Longrightarrow>
   items_at (s\<lparr>data := (data s)[p := WhenUsed u]\<rparr>) y = (if y = p then items u else items_at s y)"
  by (simp add: items_at_def)

subsection \<open>The bytes of a fragment\<close>

lemma items_slice: "items u = slice (lo_of u) (hi_of u) (bytes u)"
  by (simp add: items_def slice_def lo_of_def hi_of_def Let_def)

lemma slice_snoc:
  assumes "lo \<le> hi" "hi < length bs"
  shows "slice lo (Suc hi) (bs[hi := x]) = slice lo hi bs @ [x]"
proof -
  from assms have "drop lo (bs[hi := x]) = (drop lo bs)[hi - lo := x]"
    by (simp add: drop_update_swap)
  moreover from assms have "hi - lo < length (drop lo bs)" by simp
  then have "take (Suc (hi - lo)) ((drop lo bs)[hi - lo := x]) = take (hi - lo) (drop lo bs) @ [x]"
    by (simp add: take_Suc_conv_app_nth)
  moreover from assms have "Suc hi - lo = Suc (hi - lo)" by simp
  ultimately show ?thesis by (simp add: slice_def)
qed

lemma slice_Cons:
  assumes "lo < hi" "hi \<le> length bs"
  shows "slice lo hi bs = bs ! lo # slice (Suc lo) hi bs"
proof -
  from assms have "hi - lo = Suc (hi - Suc lo)" by simp
  moreover from assms have "drop lo bs = bs ! lo # drop (Suc lo) bs"
    by (simp add: Cons_nth_drop_Suc)
  ultimately show ?thesis by (simp add: slice_def)
qed

lemma slice_empty: "hi \<le> lo \<Longrightarrow> slice lo hi bs = []"
  by (simp add: slice_def)

lemma items_snoc:
  assumes "length (bytes u) = 28" "-1 \<le> sint (m_backItemIdx u)" "sint (m_backItemIdx u) < 27"
    and "sint (m_frontItemIdx u) \<le> sint (m_backItemIdx u) + 1" "-1 \<le> sint (m_frontItemIdx u)"
  shows "items (u\<lparr>m_backItemIdx := m_backItemIdx u + 1,
        bytes := (bytes u)[nat (sint (m_backItemIdx u) + 1) := x]\<rparr>) = items u @ [x]"
proof -
  let ?u = "u\<lparr>m_backItemIdx := m_backItemIdx u + 1,
        bytes := (bytes u)[nat (sint (m_backItemIdx u) + 1) := x]\<rparr>"
  from assms have b: "sint (m_backItemIdx u + 1) = sint (m_backItemIdx u) + 1"
    by (simp add: sint_succ)
  have lo: "lo_of ?u = lo_of u" by (simp add: lo_of_def)
  from assms(2) have hi: "hi_of ?u = Suc (hi_of u)"
    unfolding hi_of_def by (simp add: b)
  have by': "bytes ?u = (bytes u)[hi_of u := x]" by (simp add: hi_of_def)
  from assms have "lo_of u \<le> hi_of u" "hi_of u < length (bytes u)"
    by (auto simp: lo_of_def hi_of_def)
  from slice_snoc [OF this, of x] show ?thesis
    unfolding items_slice lo hi by' .
qed

lemma items_first:
  assumes "length (bytes u) = 28"
  shows "items (u\<lparr>m_frontItemIdx := 0, m_backItemIdx := 0, bytes := (bytes u)[0 := x]\<rparr>) = [x]"
proof -
  let ?u = "u\<lparr>m_frontItemIdx := 0, m_backItemIdx := 0, bytes := (bytes u)[0 := x]\<rparr>"
  have "lo_of ?u = 0" "hi_of ?u = Suc 0" by (simp_all add: lo_of_def hi_of_def)
  moreover from assms have "slice 0 (Suc 0) ((bytes u)[0 := x]) = slice 0 0 (bytes u) @ [x]"
    by (intro slice_snoc) simp_all
  ultimately show ?thesis by (simp add: items_slice slice_empty)
qed

lemma items_fresh:
  "sint (m_frontItemIdx u) = -1 \<Longrightarrow> sint (m_backItemIdx u) = -1 \<Longrightarrow> items u = []"
  by (simp add: items_slice slice_empty lo_of_def hi_of_def)

lemma items_new:
  "items \<lparr>m_backFragmentIdx = B, m_nextFragmentIdx = N, m_frontItemIdx = -1,
          m_backItemIdx = 0, bytes = (replicate 28 0)[0 := x]\<rparr> = [x]"
proof -
  have "slice 0 (Suc 0) ((replicate 28 (0::byte))[0 := x]) = slice 0 0 (replicate 28 0) @ [x]"
    by (intro slice_snoc) simp_all
  then show ?thesis by (simp add: items_slice slice_empty lo_of_def hi_of_def)
qed

lemma items_Cons:
  assumes "length (bytes u) = 28" "0 \<le> sint (m_frontItemIdx u)"
    and "sint (m_frontItemIdx u) \<le> sint (m_backItemIdx u)" "sint (m_backItemIdx u) \<le> 27"
    and "sint (m_frontItemIdx u) < 27"
  shows "items u = bytes u ! nat (sint (m_frontItemIdx u)) #
           items (u\<lparr>m_frontItemIdx := m_frontItemIdx u + 1\<rparr>)"
proof -
  let ?u = "u\<lparr>m_frontItemIdx := m_frontItemIdx u + 1\<rparr>"
  from assms have f: "sint (m_frontItemIdx u + 1) = sint (m_frontItemIdx u) + 1"
    by (simp add: sint_succ)
  from assms(2) have lo: "lo_of u = nat (sint (m_frontItemIdx u))" by (simp add: lo_of_def)
  from assms(2) have lo': "lo_of ?u = Suc (lo_of u)"
    unfolding lo_of_def by (simp add: f)
  have hi: "hi_of ?u = hi_of u" by (simp add: hi_of_def)
  from assms have "lo_of u < hi_of u" "hi_of u \<le> length (bytes u)"
    by (auto simp: lo_of_def hi_of_def)
  from slice_Cons [OF this] show ?thesis
    unfolding items_slice lo' hi by (simp add: lo)
qed

lemma items_one:
  assumes "length (bytes u) = 28" "0 \<le> sint (m_frontItemIdx u)"
    and "sint (m_backItemIdx u) = sint (m_frontItemIdx u)" "sint (m_backItemIdx u) \<le> 27"
  shows "items u = [bytes u ! nat (sint (m_frontItemIdx u))]"
proof -
  from assms(2) have lo: "lo_of u = nat (sint (m_frontItemIdx u))" by (simp add: lo_of_def)
  from assms have "lo_of u < hi_of u" "hi_of u \<le> length (bytes u)" "hi_of u \<le> Suc (lo_of u)"
    by (auto simp: lo_of_def hi_of_def)
  from slice_Cons [OF this(1,2)] this(3) show ?thesis
    unfolding items_slice by (simp add: lo slice_empty)
qed

lemma items_promote:
  "sint (m_frontItemIdx u) = -1 \<Longrightarrow>
   items (u\<lparr>m_backFragmentIdx := B, m_frontItemIdx := 0\<rparr>) = items u"
  by (simp add: items_slice lo_of_def hi_of_def)

lemma items_links:
  "items (u\<lparr>m_backFragmentIdx := B\<rparr>) = items u"
  "items (u\<lparr>m_nextFragmentIdx := N\<rparr>) = items u"
  by (simp_all add: items_slice lo_of_def hi_of_def)

subsection \<open>enqueue_byte keeps the invariant\<close>

lemma nth_update_notin: "y \<notin> set c \<Longrightarrow> \<forall>x\<in>set c. d[y := v] ! x = d ! x"
  by (metis nth_list_update_neq)

lemma free_path_update:
  "free_path d p fl \<Longrightarrow> y \<notin> set fl \<Longrightarrow> free_path (d[y := v]) p fl"
  by (rule free_path_frame [of d]) (simp_all add: nth_update_notin)

lemma queue_ok_update_other:
  "queue_ok d q c \<Longrightarrow> y \<notin> set c \<Longrightarrow> queue_ok (d[y := v]) q c"
  by (rule queue_ok_frame [of d]) (simp_all add: nth_update_notin)

lemma local_step_refl:
  assumes "queue_ok (data s) q c" "free_path (data s) (nextFreeFragment s) fl"
    and "distinct fl" "set c \<inter> set fl = {}" "length (data s) = 64"
  shows "local_step s fl c (s\<lparr>reports := r\<rparr>) q fl c"
  using assms by (simp add: local_step_def)

lemma queue_ok_last:
  assumes "queue_ok d q c" "c \<noteq> []"
  shows "last c < length d \<and> (\<exists>u. d ! last c = WhenUsed u \<and> seg_ok c (length c - 1) u)"
  using queue_ok_nth [OF assms(1), of "length c - 1"] assms(2)
  by (simp add: last_conv_nth)

lemma queue_ok_hd:
  assumes "queue_ok d q c" "c \<noteq> []"
  shows "q = Ptr (hd c) \<and> hd c < length d \<and> (\<exists>u. d ! hd c = WhenUsed u \<and> seg_ok c 0 u)"
  using queue_ok_nth [OF assms(1), of 0] assms
  by (cases c) (simp_all add: queue_ok_def)

lemma contents_last:
  assumes "c \<noteq> []" "last c < length (data s)" "data s ! last c = WhenUsed u"
  shows "contents s c = contents s (butlast c) @ items u"
proof -
  from assms(1) have "c = butlast c @ [last c]" by simp
  then have "contents s c = contents s (butlast c) @ contents s [last c]"
    by (metis contents_append)
  with assms show ?thesis by (simp add: contents_def items_at_used)
qed

lemma contents_update_other:
  assumes "y \<notin> set c" "y < length (data s)"
  shows "contents (s\<lparr>data := (data s)[y := v]\<rparr>) c = contents s c"
proof (rule contents_frame)
  fix x assume "x \<in> set c"
  with assms(1) have "x \<noteq> y" by blast
  then show "items_at (s\<lparr>data := (data s)[y := v]\<rparr>) x = items_at s x"
    by (simp add: items_at_def)
qed

lemma contents_update_last:
  assumes "c \<noteq> []" "distinct c" "last c < length (data s)"
  shows "contents (s\<lparr>data := (data s)[last c := WhenUsed u']\<rparr>) c =
         contents s (butlast c) @ items u'"
proof -
  let ?s = "s\<lparr>data := (data s)[last c := WhenUsed u']\<rparr>"
  from assms have "contents ?s c = contents ?s (butlast c) @ items u'"
    by (intro contents_last) simp_all
  moreover from assms have "last c \<notin> set (butlast c)"
    by (metis append_butlast_last_id distinct_butlast not_distinct_conv_prefix)
  then have "contents ?s (butlast c) = contents s (butlast c)"
    using assms by (intro contents_update_other) simp_all
  ultimately show ?thesis by simp
qed

lemma back_room_used:
  "c \<noteq> [] \<Longrightarrow> last c < length (data s) \<Longrightarrow> data s ! last c = WhenUsed u \<Longrightarrow>
   back_room s c = nat (27 - sint (m_backItemIdx u))"
  by (simp add: back_room_def)

lemma enq_incr:
  assumes q: "queue_ok (data s) q c" and ne: "c \<noteq> []"
    and fp: "free_path (data s) (nextFreeFragment s) fl"
    and dfl: "distinct fl" and disj: "set c \<inter> set fl = {}" and len: "length (data s) = 64"
    and bk: "data s ! last c = WhenUsed bk" "sint (m_backItemIdx bk) \<noteq> 27"
    and fr: "data s ! hd c = WhenUsed fr" "sint (m_frontItemIdx fr) \<noteq> -1"
  shows "enq_post s fl c q x (enqueue_byte q x s)"
proof -
  let ?k = "length c - 1"
  let ?bk = "bk\<lparr>m_backItemIdx := m_backItemIdx bk + 1,
        bytes := (bytes bk)[nat (sint (m_backItemIdx bk) + 1) := x]\<rparr>"
  let ?s = "s\<lparr>data := (data s)[last c := WhenUsed ?bk]\<rparr>"
  from queue_ok_last [OF q ne] bk have l: "last c < length (data s)" and sb: "seg_ok c ?k bk"
    by simp_all
  from queue_ok_hd [OF q ne] fr have qp: "q = Ptr (hd c)" and h: "hd c < length (data s)"
    and sf: "seg_ok c 0 fr" by simp_all
  from ne have lk: "last c = c ! ?k" by (simp add: last_conv_nth)
  from ne have h0: "hd c = c ! 0" by (simp add: hd_conv_nth)
  have same: "?k = 0 \<Longrightarrow> bk = fr" using bk fr lk h0 by simp
  from sb same fr(2) bk(2) have b: "-1 \<le> sint (m_backItemIdx bk)" "sint (m_backItemIdx bk) < 27"
    "sint (m_frontItemIdx bk) \<le> sint (m_backItemIdx bk) + 1" "-1 \<le> sint (m_frontItemIdx bk)"
    "length (bytes bk) = 28"
    by (auto simp: seg_ok_def split: if_splits)
  then have b1: "sint (m_backItemIdx bk + 1) = sint (m_backItemIdx bk) + 1"
    by (simp add: sint_succ)
  from sf have B: "m_backFragmentIdx fr = of_nat (last c)" by (simp add: seg_ok_def)
  from l len have l64: "last c < 64" by simp
  have res: "enqueue_byte q x s = Some (q, ?s)"
    unfolding qp using h fr(1) B l64 l bk b(1,2) fr(2)
    by (intro enqueue_incr) simp_all
  from sb same fr(2) b b1 ne have "seg_ok c ?k ?bk"
    by (auto simp: seg_ok_def link_def split: if_splits)
  from queue_ok_update [OF q _ this] ne lk have q': "queue_ok (data ?s) q c" by simp
  from disj ne have "last c \<notin> set fl" by (meson disjoint_iff last_in_set)
  with fp have fp': "free_path (data ?s) (nextFreeFragment ?s) fl"
    by (simp add: free_path_update)
  from ne have lin: "last c \<in> set c" by simp
  have frame: "data ?s ! y = data s ! y" if "y \<notin> set c" for y
  proof -
    from that lin have "last c \<noteq> y" by blast
    then show ?thesis by simp
  qed
  have ls: "local_step s fl c ?s q fl c"
    unfolding local_step_def using q' fp' dfl disj len frame by simp
  from ne l bk(1) have c0: "contents s c = contents s (butlast c) @ items bk"
    by (rule contents_last)
  from ne queue_ok_distinct [OF q] l
  have "contents ?s c = contents s (butlast c) @ items ?bk"
    by (rule contents_update_last)
  with c0 b have cont: "contents ?s c = contents s c @ [x]"
    by (simp add: items_snoc)
  from ne l bk(1) b have r0: "back_room s c = nat (27 - sint (m_backItemIdx bk))"
    by (simp add: back_room_used)
  from ne l have "back_room ?s c = nat (27 - sint (m_backItemIdx bk + 1))"
    by (simp add: back_room_def)
  with r0 b b1 have room: "room_g ?s fl c + 1 = room_g s fl c" "room_g s fl c \<noteq> 0"
    by (simp_all add: room_g_def)
  show ?thesis
    unfolding enq_post_def res using ls cont room by auto
qed

lemma enq_first:
  assumes q: "queue_ok (data s) q c" and ne: "c \<noteq> []"
    and fp: "free_path (data s) (nextFreeFragment s) fl"
    and dfl: "distinct fl" and disj: "set c \<inter> set fl = {}" and len: "length (data s) = 64"
    and fr: "data s ! hd c = WhenUsed fr" "sint (m_frontItemIdx fr) = -1"
  shows "enq_post s fl c q x (enqueue_byte q x s)"
proof -
  let ?fr = "fr\<lparr>m_frontItemIdx := 0, m_backItemIdx := 0, bytes := (bytes fr)[0 := x]\<rparr>"
  let ?s = "s\<lparr>data := (data s)[hd c := WhenUsed ?fr]\<rparr>"
  from queue_ok_hd [OF q ne] fr have qp: "q = Ptr (hd c)" and h: "hd c < length (data s)"
    and sf: "seg_ok c 0 fr" by simp_all
  from sf fr(2) have b: "sint (m_backItemIdx fr) = -1" and lb: "length (bytes fr) = 28"
    by (simp_all add: seg_ok_def)
  with sf have "\<not> Suc 0 < length c" by (simp add: seg_ok_def)
  with ne obtain p where cp: "c = [p]" by (cases c) auto
  then have lc: "last c = hd c" by simp
  from sf lc have B: "m_backFragmentIdx fr = of_nat (hd c)" by (simp add: seg_ok_def)
  from h len have h64: "hd c < 64" by simp
  have res: "enqueue_byte q x s = Some (q, ?s)"
    unfolding qp using h fr B h64 b by (intro enqueue_first) simp_all
  from cp have lc1: "length c = 1" by simp
  from sf lb lc1 have "seg_ok c 0 ?fr"
    by (simp add: seg_ok_def link_def)
  from queue_ok_update [OF q _ this] ne have q': "queue_ok (data ?s) q c"
    by (simp add: hd_conv_nth)
  from disj ne have "hd c \<notin> set fl" by (meson disjoint_iff hd_in_set)
  with fp have fp': "free_path (data ?s) (nextFreeFragment ?s) fl"
    by (simp add: free_path_update)
  from ne have hin: "hd c \<in> set c" by simp
  have frame: "data ?s ! y = data s ! y" if "y \<notin> set c" for y
  proof -
    from that hin have "hd c \<noteq> y" by blast
    then show ?thesis by simp
  qed
  have ls: "local_step s fl c ?s q fl c"
    unfolding local_step_def using q' fp' dfl disj len frame by simp
  from h fr b have "contents s [hd c] = []"
    by (simp add: contents_def items_at_used items_fresh)
  moreover from h lb have "contents ?s [hd c] = [x]"
    by (simp add: contents_def items_at_def items_first)
  ultimately have cont: "contents ?s c = contents s c @ [x]"
    using cp by simp
  from ne h fr(1) b lc have r0: "back_room s c = 28"
    by (simp add: back_room_def)
  from ne h lc have "back_room ?s c = 27"
    by (simp add: back_room_def)
  with r0 have room: "room_g ?s fl c + 1 = room_g s fl c" "room_g s fl c \<noteq> 0"
    by (simp_all add: room_g_def)
  show ?thesis
    unfolding enq_post_def res using ls cont room by auto
qed

lemma enq_full:
  assumes q: "queue_ok (data s) q c" and ne: "c \<noteq> []"
    and fp: "free_path (data s) (nextFreeFragment s) []"
    and len: "length (data s) = 64"
    and bk: "data s ! last c = WhenUsed bk" "sint (m_backItemIdx bk) = 27"
  shows "enq_post s [] c q x (enqueue_byte q x s)"
proof -
  from queue_ok_last [OF q ne] bk have l: "last c < length (data s)" by simp
  from queue_ok_hd [OF q ne] obtain fr where qp: "q = Ptr (hd c)" and h: "hd c < length (data s)"
    and fr: "data s ! hd c = WhenUsed fr" and sf: "seg_ok c 0 fr" by blast
  from sf have B: "m_backFragmentIdx fr = of_nat (last c)" by (simp add: seg_ok_def)
  from l len have l64: "last c < 64" by simp
  from fp have nf: "nextFreeFragment s = nullptr" by simp
  have res: "enqueue_byte q x s = Some (q, on_out_of_memory s)"
    unfolding qp using h fr B l64 l bk nf by (intro enqueue_full) simp_all
  have ls: "local_step s [] c (on_out_of_memory s) q [] c"
    unfolding on_out_of_memory_def using q fp len by (intro local_step_refl) simp_all
  from ne l bk have "room_g s [] c = 0"
    by (simp add: room_g_def back_room_def)
  then show ?thesis
    unfolding enq_post_def res using ls by simp
qed

lemma enq_null_none:
  assumes q: "queue_ok (data s) q []"
    and fp: "free_path (data s) (nextFreeFragment s) []"
    and len: "length (data s) = 64"
  shows "enq_post s [] [] q x (enqueue_byte q x s)"
proof -
  from q have qp: "q = nullptr" by (rule queue_ok_empty)
  from fp have nf: "nextFreeFragment s = nullptr" by simp
  have res: "enqueue_byte q x s = Some (q, on_out_of_memory s)"
    unfolding qp using nf by (rule enqueue_null_none)
  have ls: "local_step s [] [] (on_out_of_memory s) q [] []"
    unfolding on_out_of_memory_def using q fp len by (intro local_step_refl) simp_all
  have "room_g s [] [] = 0"
    by (simp add: room_g_def back_room_def)
  then show ?thesis
    unfolding enq_post_def res using ls by simp
qed

lemma items_created:
  "items \<lparr>m_backFragmentIdx = B, m_nextFragmentIdx = N, m_frontItemIdx = 0,
          m_backItemIdx = 0, bytes = (replicate 28 0)[0 := x]\<rparr> = [x]"
proof -
  have "slice 0 (Suc 0) ((replicate 28 (0::byte))[0 := x]) = slice 0 0 (replicate 28 0) @ [x]"
    by (intro slice_snoc) simp_all
  then show ?thesis by (simp add: items_slice slice_empty lo_of_def hi_of_def)
qed

lemma seg_ok_created:
  "seg_ok [n] 0 \<lparr>m_backFragmentIdx = of_nat n, m_nextFragmentIdx = -1, m_frontItemIdx = 0,
       m_backItemIdx = 0, bytes = (replicate 28 0)[0 := x]\<rparr>"
  by (simp add: seg_ok_def link_def)

lemma queue_ok_single:
  "n < length d \<Longrightarrow> d ! n = WhenUsed u \<Longrightarrow> seg_ok [n] 0 u \<Longrightarrow> queue_ok d (Ptr n) [n]"
  by (simp add: queue_ok_def)

lemma enq_null_alloc:
  assumes q: "queue_ok (data s) q []"
    and fp: "free_path (data s) (nextFreeFragment s) (n # fl)"
    and dfl: "distinct (n # fl)" and len: "length (data s) = 64"
  shows "enq_post s (n # fl) [] q x (enqueue_byte q x s)"
proof -
  let ?u = "\<lparr>m_backFragmentIdx = of_nat n, m_nextFragmentIdx = -1, m_frontItemIdx = 0,
       m_backItemIdx = 0, bytes = (replicate 28 0)[0 := x]\<rparr>"
  from q have qp: "q = nullptr" by (rule queue_ok_empty)
  from fp obtain m where nf: "nextFreeFragment s = Ptr n" and n: "n < length (data s)"
    and dn: "data s ! n = NextFree m" and fp1: "free_path (data s) m fl" by auto
  let ?s = "s\<lparr>data := (data s)[n := WhenUsed ?u], nextFreeFragment := m\<rparr>"
  from n len have n64: "n < 64" by simp
  have res: "enqueue_byte q x s = Some (Ptr n, ?s)"
    unfolding qp using nf n dn n64 by (rule enqueue_null_free)
  from n have q': "queue_ok (data ?s) (Ptr n) [n]"
    by (intro queue_ok_single [OF _ _ seg_ok_created]) simp_all
  from dfl fp1 have fp': "free_path (data ?s) (nextFreeFragment ?s) fl"
    by (simp add: free_path_update)
  have frame: "data ?s ! y = data s ! y" if "y \<notin> set (n # fl)" for y
    using that by simp
  have ls: "local_step s (n # fl) [] ?s (Ptr n) fl [n]"
    unfolding local_step_def using q' fp' dfl len frame by auto
  from n have cont: "contents ?s [n] = contents s [] @ [x]"
    by (simp add: contents_def items_at_def items_created)
  from n have "back_room ?s [n] = 27" by (simp add: back_room_def)
  then have room: "room_g ?s fl [n] + 1 = room_g s (n # fl) []" "room_g s (n # fl) [] \<noteq> 0"
    by (simp_all add: room_g_def back_room_def)
  show ?thesis
    unfolding enq_post_def res using ls cont room by auto
qed

lemma seg_ok_new_back:
  "j = length c \<Longrightarrow> 0 < j \<Longrightarrow>
   seg_ok (c @ [n]) j \<lparr>m_backFragmentIdx = -1, m_nextFragmentIdx = -1, m_frontItemIdx = -1,
       m_backItemIdx = 0, bytes = (replicate 28 0)[0 := x]\<rparr>"
  by (simp add: seg_ok_def link_def)

lemma seg_ok_inner:
  "seg_ok c j u \<Longrightarrow> Suc j < length c \<Longrightarrow>
   seg_ok (c @ [n]) j (if j = 0 then u\<lparr>m_backFragmentIdx := of_nat n\<rparr> else u)"
  by (auto simp add: seg_ok_def link_def nth_append split: if_splits)

lemma seg_ok_old_back:
  "seg_ok c j u \<Longrightarrow> Suc j = length c \<Longrightarrow> sint (m_backItemIdx u) = 27 \<Longrightarrow>
   seg_ok (c @ [n]) j (u\<lparr>m_backFragmentIdx := (if j = 0 then of_nat n else m_backFragmentIdx u),
       m_nextFragmentIdx := of_nat n\<rparr>)"
  by (auto simp add: seg_ok_def link_def nth_append split: if_splits)

lemma enq_post_success:
  assumes "r = Some (q', s')" "local_step s fl c s' q' fl' c'" "room_g s fl c \<noteq> 0"
    and "reports s' = reports s" "contents s' c' = contents s c @ [x]"
    and "room_g s' fl' c' + 1 = room_g s fl c"
  shows "enq_post s fl c q x r"
  unfolding enq_post_def using assms by (intro exI [of _ q'] exI [of _ s'] exI [of _ fl'] exI [of _ c']) simp

lemma enq_grow:
  assumes q: "queue_ok (data s) q c" and ne: "c \<noteq> []"
    and fp: "free_path (data s) (nextFreeFragment s) (n # fl)"
    and dfl: "distinct (n # fl)" and disj: "set c \<inter> set (n # fl) = {}"
    and len: "length (data s) = 64"
    and bk: "data s ! last c = WhenUsed bk" "sint (m_backItemIdx bk) = 27"
  shows "enq_post s (n # fl) c q x (enqueue_byte q x s)"
proof -
  let ?k = "length c - 1"
  let ?new = "\<lparr>m_backFragmentIdx = -1, m_nextFragmentIdx = -1, m_frontItemIdx = -1,
       m_backItemIdx = 0, bytes = (replicate 28 0)[0 := x]\<rparr>"
  from queue_ok_last [OF q ne] bk have l: "last c < length (data s)" and sb: "seg_ok c ?k bk"
    by simp_all
  from queue_ok_hd [OF q ne] obtain fr where qp: "q = Ptr (hd c)" and h: "hd c < length (data s)"
    and fr: "data s ! hd c = WhenUsed fr" and sf: "seg_ok c 0 fr" by blast
  let ?fr = "fr\<lparr>m_backFragmentIdx := of_nat n\<rparr>"
  let ?bk = "(if last c = hd c then ?fr else bk)\<lparr>m_nextFragmentIdx := of_nat n\<rparr>"
  let ?d = "(data s)[hd c := WhenUsed ?fr, last c := WhenUsed ?bk, n := WhenUsed ?new]"
  from fp obtain m where nf: "nextFreeFragment s = Ptr n" and n: "n < length (data s)"
    and dn: "data s ! n = NextFree m" and fp1: "free_path (data s) m fl" by auto
  let ?s = "s\<lparr>data := ?d, nextFreeFragment := m\<rparr>"
  from ne have lk: "last c = c ! ?k" by (simp add: last_conv_nth)
  from ne have h0: "hd c = c ! 0" by (simp add: hd_conv_nth)
  from ne have k: "?k < length c" "Suc ?k = length c" by simp_all
  have dc: "distinct c" using q by (rule queue_ok_distinct)
  from ne have lin: "last c \<in> set c" and hin: "hd c \<in> set c" by simp_all
  from disj have nc: "n \<notin> set c" by auto
  from sf have B: "m_backFragmentIdx fr = of_nat (last c)" by (simp add: seg_ok_def)
  from l len have l64: "last c < 64" by simp
  have res: "enqueue_byte q x s = Some (q, ?s)"
    unfolding qp using h fr B l64 l bk nf n dn by (intro enqueue_grow) simp_all
  have q': "queue_ok ?d q (c @ [n])"
    unfolding queue_ok_def
  proof (intro conjI allI impI)
    from q ne show "q = (case c @ [n] of [] \<Rightarrow> nullptr | p # ps \<Rightarrow> Ptr p)"
      by (cases c) (simp_all add: queue_ok_def)
    from dc nc show "distinct (c @ [n])" by simp
    fix j assume j: "j < length (c @ [n])"
    show "(c @ [n]) ! j < length ?d"
    proof (cases "j < length c")
      case True
      with queue_ok_nth [OF q True] show ?thesis by (simp add: nth_append)
    next
      case False
      with j n show ?thesis by (simp add: nth_append)
    qed
    consider "j = length c" | "j = ?k" | "Suc j < length c"
      using j by fastforce
    then show "\<exists>u. ?d ! ((c @ [n]) ! j) = WhenUsed u \<and> seg_ok (c @ [n]) j u"
    proof cases
      case 1
      with n ne have "?d ! ((c @ [n]) ! j) = WhenUsed ?new" by simp
      moreover from 1 ne have "seg_ok (c @ [n]) j ?new" by (intro seg_ok_new_back) simp_all
      ultimately show ?thesis by blast
    next
      case 2
      from lin nc have "last c \<noteq> n" by blast
      with 2 k lk l have a: "?d ! ((c @ [n]) ! j) = WhenUsed ?bk"
        by (simp add: nth_append)
      have "seg_ok (c @ [n]) j ?bk"
      proof (cases "?k = 0")
        case True
        with lk h0 have same: "last c = hd c" by simp
        with bk(1) fr have "bk = fr" by simp
        with seg_ok_old_back [OF sb k(2) bk(2), of n] True same 2 show ?thesis by simp
      next
        case False
        with lk h0 k dc ne have "last c \<noteq> hd c"
          by (simp add: nth_eq_iff_index_eq)
        with seg_ok_old_back [OF sb k(2) bk(2), of n] False 2 show ?thesis by simp
      qed
      with a show ?thesis by blast
    next
      case 3
      from 3 have jj: "j < length c" "j \<noteq> ?k" by simp_all
      from queue_ok_nth [OF q jj(1)] obtain u where cj: "c ! j < length (data s)"
        and u: "data s ! (c ! j) = WhenUsed u" "seg_ok c j u" by blast
      from jj dc k lk have nl: "c ! j \<noteq> last c" by (simp add: nth_eq_iff_index_eq)
      from jj nc have nn: "c ! j \<noteq> n" by (metis nth_mem)
      have "?d ! (c ! j) = WhenUsed (if j = 0 then u\<lparr>m_backFragmentIdx := of_nat n\<rparr> else u)"
      proof (cases "j = 0")
        case True
        with h0 u(1) fr have "u = fr" "c ! j = hd c" by simp_all
        with True nl nn h show ?thesis by simp
      next
        case False
        with jj dc h0 ne have "c ! j \<noteq> hd c" by (simp add: nth_eq_iff_index_eq)
        with nl nn False u show ?thesis by simp
      qed
      with seg_ok_inner [OF u(2) 3, of n] jj show ?thesis by (simp add: nth_append)
    qed
  qed
  from dfl disj lin hin have out: "hd c \<notin> set fl" "last c \<notin> set fl" "n \<notin> set fl" by auto
  with fp1 have fp': "free_path ?d m fl"
    by (simp add: free_path_update)
  have frame: "?d ! y = data s ! y" if "y \<notin> set (n # fl)" "y \<notin> set c" for y
  proof -
    from that lin hin have "hd c \<noteq> y" "last c \<noteq> y" "n \<noteq> y" by auto
    then show ?thesis by simp
  qed
  have ls: "local_step s (n # fl) c ?s q fl (c @ [n])"
    unfolding local_step_def using q' fp' dfl disj len frame by auto
  have it: "items_at ?s y = items_at s y" if y: "y \<in> set c" for y
  proof -
    from y nc have yn: "y \<noteq> n" by blast
    consider "y = last c" | "y \<noteq> last c" "y = hd c" | "y \<noteq> last c" "y \<noteq> hd c" by blast
    then show ?thesis
    proof cases
      case 1
      with yn l n bk fr show ?thesis
        by (auto simp: items_at_def items_links)
    next
      case 2
      with yn h l n fr show ?thesis
        by (simp add: items_at_def items_links)
    next
      case 3
      with yn show ?thesis by (simp add: items_at_def)
    qed
  qed
  from n have "contents ?s [n] = [x]"
    by (simp add: contents_def items_at_def items_new)
  moreover have "contents ?s c = contents s c" by (rule contents_frame) (rule it)
  ultimately have cont: "contents ?s (c @ [n]) = contents s c @ [x]"
    by (simp add: contents_append)
  from ne l bk have r0: "back_room s c = 0"
    by (simp add: back_room_def)
  from n have "back_room ?s (c @ [n]) = 27"
    by (simp add: back_room_def)
  with r0 have room: "room_g ?s fl (c @ [n]) + 1 = room_g s (n # fl) c" "room_g s (n # fl) c \<noteq> 0"
    by (simp_all add: room_g_def)
  show ?thesis
    by (rule enq_post_success [OF res ls room(2) _ cont room(1)]) simp
qed

lemma enqueue_local:
  assumes q: "queue_ok (data s) q c" and fp: "free_path (data s) (nextFreeFragment s) fl"
    and dfl: "distinct fl" and disj: "set c \<inter> set fl = {}" and len: "length (data s) = 64"
  shows "enq_post s fl c q x (enqueue_byte q x s)"
proof (cases "c = []")
  case True
  show ?thesis
  proof (cases fl)
    case Nil
    with True q fp len show ?thesis by (simp add: enq_null_none)
  next
    case (Cons n fl')
    with True q fp dfl len show ?thesis by (simp add: enq_null_alloc)
  qed
next
  case False
  from queue_ok_last [OF q False] obtain bk where bk: "data s ! last c = WhenUsed bk" by blast
  from queue_ok_hd [OF q False] obtain fr where fr: "data s ! hd c = WhenUsed fr" by blast
  show ?thesis
  proof (cases "sint (m_backItemIdx bk) = 27")
    case True
    show ?thesis
    proof (cases fl)
      case Nil
      with q False fp len bk True show ?thesis by (simp add: enq_full)
    next
      case (Cons n fl')
      with q False fp dfl disj len bk True show ?thesis by (simp add: enq_grow)
    qed
  next
    case full: False
    show ?thesis
    proof (cases "sint (m_frontItemIdx fr) = -1")
      case True
      from q False fp dfl disj len fr True show ?thesis by (rule enq_first)
    next
      case False
      from q \<open>c \<noteq> []\<close> fp dfl disj len bk full fr False show ?thesis by (rule enq_incr)
    qed
  qed
qed

subsection \<open>dequeue_byte keeps the invariant\<close>

lemma deq_post_success:
  assumes "r = Some (b, q', s')" "local_step s fl c s' q' fl' c'"
    and "reports s' = reports s" "contents s c = b # contents s' c'"
    and "c' = [] \<or> contents s' c' \<noteq> []"
  shows "deq_post s fl c q r"
  unfolding deq_post_def using assms
  by (intro exI [of _ b] exI [of _ q'] exI [of _ s'] exI [of _ fl'] exI [of _ c']) simp

lemma deq_post_empty:
  assumes "r = Some (0, q, on_illegal_operation s)" "contents s c = []"
    and "queue_ok (data s) q c" "free_path (data s) (nextFreeFragment s) fl"
    and "distinct fl" "set c \<inter> set fl = {}" "length (data s) = 64"
  shows "deq_post s fl c q r"
proof -
  from assms(3-) have "local_step s fl c (on_illegal_operation s) q fl c"
    unfolding on_illegal_operation_def by (rule local_step_refl)
  with assms(1,2) show ?thesis unfolding deq_post_def by simp
qed

lemma items_nonempty:
  assumes "length (bytes u) = 28" "0 \<le> sint (m_frontItemIdx u)"
    and "sint (m_frontItemIdx u) \<le> sint (m_backItemIdx u)" "sint (m_backItemIdx u) \<le> 27"
  shows "items u \<noteq> []"
proof -
  from assms have "lo_of u < hi_of u" "hi_of u \<le> length (bytes u)"
    by (auto simp: lo_of_def hi_of_def)
  from slice_Cons [OF this] show ?thesis by (simp add: items_slice)
qed

lemma free_path_release:
  assumes "free_path d n fl" "p \<notin> set fl" "p < length d"
  shows "free_path (d[p := NextFree n]) (Ptr p) (p # fl)"
  using assms by (simp add: free_path_update)

lemma local_stepI:
  assumes "length (data s') = 64" "queue_ok (data s') q' c'"
    and "free_path (data s') (nextFreeFragment s') fl'" "distinct fl'"
    and "set c' \<inter> set fl' = {}" "set fl' \<union> set c' = set fl \<union> set c"
    and "\<And>y. y \<notin> set fl \<Longrightarrow> y \<notin> set c \<Longrightarrow> data s' ! y = data s ! y"
  shows "local_step s fl c s' q' fl' c'"
  unfolding local_step_def using assms by blast

lemma deq_whole:
  assumes q: "queue_ok (data s) q [p]" and fp: "free_path (data s) (nextFreeFragment s) fl"
    and dfl: "distinct fl" and disj: "p \<notin> set fl" and len: "length (data s) = 64"
    and res: "dequeue_byte q s = Some (b, nullptr,
        s\<lparr>data := (data s)[p := NextFree (nextFreeFragment s)], nextFreeFragment := Ptr p\<rparr>)"
    and cont: "contents s [p] = [b]"
  shows "deq_post s fl [p] q (dequeue_byte q s)"
proof -
  let ?s = "s\<lparr>data := (data s)[p := NextFree (nextFreeFragment s)], nextFreeFragment := Ptr p\<rparr>"
  from queue_ok_hd [OF q] have p: "p < length (data s)" by simp
  from fp disj p have fp': "free_path (data ?s) (nextFreeFragment ?s) (p # fl)"
    by (simp add: free_path_update)
  have ls: "local_step s fl [p] ?s nullptr (p # fl) []"
  proof (rule local_stepI)
    show "free_path (data ?s) (nextFreeFragment ?s) (p # fl)" by (rule fp')
    show "queue_ok (data ?s) nullptr []" by (rule queue_ok_null)
  qed (use dfl disj len in simp_all)
  show ?thesis
    by (rule deq_post_success [OF res ls]) (simp_all add: cont contents_Nil)
qed

lemma seg_ok_single_next:
  "seg_ok c 0 u \<Longrightarrow> length c = 1 \<Longrightarrow> m_nextFragmentIdx u = -1"
  by (simp add: seg_ok_def link_def)

lemma seg_ok_tl:
  "seg_ok c (Suc j) u \<Longrightarrow> Suc j < length c \<Longrightarrow> seg_ok (tl c) j
     (if j = 0 then u\<lparr>m_backFragmentIdx := of_nat (last c), m_frontItemIdx := 0\<rparr> else u)"
  by (cases c) (auto simp add: seg_ok_def link_def last_conv_nth split: if_splits)

lemma deq_promote:
  assumes q: "queue_ok (data s) q c" and two: "Suc 0 < length c"
    and fp: "free_path (data s) (nextFreeFragment s) fl"
    and dfl: "distinct fl" and disj: "set c \<inter> set fl = {}" and len: "length (data s) = 64"
    and fr: "data s ! hd c = WhenUsed fr" "sint (m_frontItemIdx fr) = 27"
  shows "deq_post s fl c q (dequeue_byte q s)"
proof -
  from two obtain p y ps where c: "c = p # y # ps" by (cases c; cases "tl c") auto
  have ne: "c \<noteq> []" using c by simp
  from queue_ok_hd [OF q ne] fr c have qp: "q = Ptr p" and h: "p < length (data s)"
    and sf: "seg_ok c 0 fr" by simp_all
  from queue_ok_nth [OF q two] c obtain uy where y: "y < length (data s)"
    and uy: "data s ! y = WhenUsed uy" and sy: "seg_ok c (Suc 0) uy" by auto
  from queue_ok_distinct [OF q] c have py: "y \<noteq> p" and dt: "distinct (y # ps)" "p \<notin> set (y # ps)"
    by auto
  from sf fr(2) c have b: "sint (m_backItemIdx fr) = 27" and lb: "length (bytes fr) = 28"
    and N: "m_nextFragmentIdx fr = of_nat y" and B: "m_backFragmentIdx fr = of_nat (last c)"
    by (auto simp: seg_ok_def link_def)
  let ?uy = "uy\<lparr>m_backFragmentIdx := m_backFragmentIdx fr, m_frontItemIdx := 0\<rparr>"
  let ?d = "(data s)[y := WhenUsed ?uy, p := NextFree (nextFreeFragment s)]"
  let ?s = "s\<lparr>data := ?d, nextFreeFragment := Ptr p\<rparr>"
  from y len have y64: "y < 64" by simp
  from c fr have frp: "data s ! p = WhenUsed fr" by simp
  have res: "dequeue_byte q s = Some (bytes fr ! 27, Ptr y, ?s)"
    unfolding qp using h frp fr(2) b N y64 y uy py by (rule dequeue_promote)
  have q': "queue_ok ?d (Ptr y) (y # ps)"
    unfolding queue_ok_def
  proof (intro conjI allI impI)
    show "Ptr y = (case y # ps of [] \<Rightarrow> nullptr | p # ps \<Rightarrow> Ptr p)" by simp
    show "distinct (y # ps)" by (rule dt)
    fix j assume j: "j < length (y # ps)"
    with c have sj: "Suc j < length c" by simp
    from queue_ok_nth [OF q sj] c obtain u where cj: "(y # ps) ! j < length (data s)"
      and u: "data s ! ((y # ps) ! j) = WhenUsed u" "seg_ok c (Suc j) u" by auto
    from cj show "(y # ps) ! j < length ?d" by simp
    from j dt(2) have np: "(y # ps) ! j \<noteq> p" by (metis nth_mem)
    have "?d ! ((y # ps) ! j) = WhenUsed (if j = 0 then ?uy else u)"
    proof (cases "j = 0")
      case True
      with y py show ?thesis by simp
    next
      case False
      with j dt(1) have "(y # ps) ! j \<noteq> y"
        by (metis length_greater_0_conv list.discI nth_Cons_0 nth_eq_iff_index_eq)
      with np u False show ?thesis by simp
    qed
    moreover from u(1) uy have "j = 0 \<Longrightarrow> u = uy" by simp
    ultimately show "\<exists>u. ?d ! ((y # ps) ! j) = WhenUsed u \<and> seg_ok (y # ps) j u"
      using seg_ok_tl [OF u(2) sj] c B by auto
  qed
  from disj c have pfl: "p \<notin> set fl" "y \<notin> set fl" by auto
  with fp h have fp': "free_path (data ?s) (nextFreeFragment ?s) (p # fl)"
    by (simp add: free_path_update)
  have ls: "local_step s fl c ?s (Ptr y) (p # fl) (y # ps)"
  proof (rule local_stepI)
    show "free_path (data ?s) (nextFreeFragment ?s) (p # fl)" by (rule fp')
    show "queue_ok (data ?s) (Ptr y) (y # ps)" using q' by simp
    show "set (y # ps) \<inter> set (p # fl) = {}" using disj dt c by auto
    show "set (p # fl) \<union> set (y # ps) = set fl \<union> set c" using c by auto
    show "data ?s ! z = data s ! z" if "z \<notin> set fl" "z \<notin> set c" for z
      using that c by simp
  qed (use dfl pfl len in simp_all)
  from sy c have fy: "sint (m_frontItemIdx uy) = -1" and by': "0 \<le> sint (m_backItemIdx uy)"
    "sint (m_backItemIdx uy) \<le> 27" "length (bytes uy) = 28"
    by (simp_all add: seg_ok_def)
  have c1: "contents s [p] = [bytes fr ! 27]"
    using h frp lb fr(2) b by (simp add: contents_def items_at_used items_one)
  from y py have "items_at ?s y = items ?uy" by (simp add: items_at_def)
  with fy y uy have iy: "items_at ?s y = items_at s y"
    by (simp add: items_promote items_at_used)
  have "items_at ?s z = items_at s z" if "z \<in> set ps" for z
  proof -
    from that dt have "z \<noteq> y" "z \<noteq> p" by auto
    then show ?thesis by (simp add: items_at_def)
  qed
  then have "contents ?s ps = contents s ps" by (rule contents_frame)
  with iy have c2: "contents ?s (y # ps) = contents s (y # ps)"
    by (simp add: contents_Cons)
  from c1 c2 c have cont: "contents s c = bytes fr ! 27 # contents ?s (y # ps)"
    using contents_append [of s "[p]" "y # ps"] by simp
  from by' have "items ?uy \<noteq> []" by (intro items_nonempty) simp_all
  with y py have "contents ?s (y # ps) \<noteq> []"
    by (simp add: contents_Cons items_at_def)
  then have ne': "y # ps = [] \<or> contents ?s (y # ps) \<noteq> []" by (rule disjI2)
  show ?thesis
    by (rule deq_post_success [OF res ls _ cont ne']) simp
qed

lemma deq_more:
  assumes q: "queue_ok (data s) q c" and ne: "c \<noteq> []"
    and fp: "free_path (data s) (nextFreeFragment s) fl"
    and dfl: "distinct fl" and disj: "set c \<inter> set fl = {}" and len: "length (data s) = 64"
    and fr: "data s ! hd c = WhenUsed fr" "0 \<le> sint (m_frontItemIdx fr)"
      "sint (m_frontItemIdx fr) < 27" "sint (m_frontItemIdx fr) < sint (m_backItemIdx fr)"
  shows "deq_post s fl c q (dequeue_byte q s)"
proof -
  let ?fr = "fr\<lparr>m_frontItemIdx := m_frontItemIdx fr + 1\<rparr>"
  let ?s = "s\<lparr>data := (data s)[hd c := WhenUsed ?fr]\<rparr>"
  from queue_ok_hd [OF q ne] fr have qp: "q = Ptr (hd c)" and h: "hd c < length (data s)"
    and sf: "seg_ok c 0 fr" by simp_all
  from fr have f1: "sint (m_frontItemIdx fr + 1) = sint (m_frontItemIdx fr) + 1"
    by (simp add: sint_succ)
  have res: "dequeue_byte q s = Some (bytes fr ! nat (sint (m_frontItemIdx fr)), q, ?s)"
    unfolding qp using h fr by (rule dequeue_more)
  from sf fr f1 have "seg_ok c 0 ?fr"
    by (simp add: seg_ok_def)
  from queue_ok_update [OF q _ this] ne have q': "queue_ok (data ?s) q c"
    by (simp add: hd_conv_nth)
  from disj ne have "hd c \<notin> set fl" by (meson disjoint_iff hd_in_set)
  with fp have fp': "free_path (data ?s) (nextFreeFragment ?s) fl"
    by (simp add: free_path_update)
  from ne have hin: "hd c \<in> set c" by simp
  have ls: "local_step s fl c ?s q fl c"
  proof (rule local_stepI)
    show "data ?s ! y = data s ! y" if "y \<notin> set c" for y
    proof -
      from that hin have "hd c \<noteq> y" by blast
      then show ?thesis by simp
    qed
  qed (use q' fp' dfl disj len in simp_all)
  from sf have lb: "length (bytes fr) = 28" and b27: "sint (m_backItemIdx fr) \<le> 27"
    by (simp_all add: seg_ok_def)
  from ne obtain p ps where c: "c = p # ps" by (cases c) auto
  with queue_ok_distinct [OF q] have pps: "p \<notin> set ps" by simp
  from c h have "items_at ?s p = items ?fr" by (simp add: items_at_def)
  moreover from c h fr(1) have "items_at s p = items fr" by (simp add: items_at_used)
  moreover from lb fr b27
  have "items fr = bytes fr ! nat (sint (m_frontItemIdx fr)) # items ?fr"
    by (intro items_Cons) simp_all
  moreover from pps c h have "contents ?s ps = contents s ps"
    by (simp add: contents_update_other)
  ultimately have cont: "contents s c = bytes fr ! nat (sint (m_frontItemIdx fr)) # contents ?s c"
    by (simp add: c contents_Cons)
  from lb fr b27 f1 have "items ?fr \<noteq> []" by (intro items_nonempty) simp_all
  with c h have "contents ?s c \<noteq> []" by (simp add: contents_Cons items_at_def)
  then have ne': "c = [] \<or> contents ?s c \<noteq> []" by (rule disjI2)
  show ?thesis
    by (rule deq_post_success [OF res ls _ cont ne']) simp
qed

lemma seg_ok_short:
  "seg_ok c 0 u \<Longrightarrow> sint (m_backItemIdx u) \<noteq> 27 \<Longrightarrow> c \<noteq> [] \<Longrightarrow> \<exists>p. c = [p]"
  by (cases c; cases "tl c") (auto simp: seg_ok_def)

lemma dequeue_local:
  assumes q: "queue_ok (data s) q c" and fp: "free_path (data s) (nextFreeFragment s) fl"
    and dfl: "distinct fl" and disj: "set c \<inter> set fl = {}" and len: "length (data s) = 64"
  shows "deq_post s fl c q (dequeue_byte q s)"
proof (cases "c = []")
  case True
  with q have "q = nullptr" by (simp add: queue_ok_empty)
  then have "dequeue_byte q s = Some (0, q, on_illegal_operation s)"
    by (simp add: dequeue_null)
  moreover from True have "contents s c = []" by (simp add: contents_Nil)
  ultimately show ?thesis using q fp dfl disj len by (rule deq_post_empty)
next
  case ne: False
  from queue_ok_hd [OF q ne] obtain fr where qp: "q = Ptr (hd c)" and h: "hd c < length (data s)"
    and fr: "data s ! hd c = WhenUsed fr" and sf: "seg_ok c 0 fr" by blast
  from sf have lb: "length (bytes fr) = 28" and b27: "sint (m_backItemIdx fr) \<le> 27"
    and fb: "sint (m_frontItemIdx fr) \<le> sint (m_backItemIdx fr)"
    and f1: "-1 \<le> sint (m_frontItemIdx fr)"
    and fresh: "sint (m_frontItemIdx fr) = -1 \<longrightarrow> sint (m_backItemIdx fr) = -1"
    by (simp_all add: seg_ok_def)
  show ?thesis
  proof (cases "sint (m_frontItemIdx fr) = -1")
    case True
    with fresh have b: "sint (m_backItemIdx fr) = -1" by simp
    with seg_ok_short [OF sf _ ne] obtain p where c: "c = [p]" by auto
    from True have "isEmpty fr" by (simp add: isEmpty_def)
    with h fr have "dequeue_byte q s = Some (0, q, on_illegal_operation s)"
      unfolding qp by (rule dequeue_empty)
    moreover from c h fr True b have "contents s c = []"
      by (simp add: contents_def items_at_used items_fresh)
    ultimately show ?thesis using q fp dfl disj len by (rule deq_post_empty)
  next
    case False
    with f1 have f0: "0 \<le> sint (m_frontItemIdx fr)" by simp
    show ?thesis
    proof (cases "sint (m_frontItemIdx fr) < sint (m_backItemIdx fr)")
      case True
      with b27 have "sint (m_frontItemIdx fr) < 27" by simp
      with q ne fp dfl disj len fr f0 True show ?thesis by (intro deq_more) simp_all
    next
      case eq: False
      with fb have eq: "sint (m_backItemIdx fr) = sint (m_frontItemIdx fr)" by simp
      from h fr lb f0 eq b27 have cont1: "contents s [hd c] = [bytes fr ! nat (sint (m_frontItemIdx fr))]"
        by (simp add: contents_def items_at_used items_one)
      show ?thesis
      proof (cases "length c = 1")
        case True
        then obtain p where c: "c = [p]" by (cases c) auto
        from sf True have N: "m_nextFragmentIdx fr = -1" by (rule seg_ok_single_next)
        have res: "dequeue_byte q s = Some (bytes fr ! nat (sint (m_frontItemIdx fr)), nullptr,
          s\<lparr>data := (data s)[p := NextFree (nextFreeFragment s)], nextFreeFragment := Ptr p\<rparr>)"
        proof (cases "sint (m_frontItemIdx fr) = 27")
          case True
          with dequeue_last [of p s fr] h fr eq N c qp show ?thesis by simp
        next
          case False
          with b27 eq have "sint (m_frontItemIdx fr) < 27" by simp
          with dequeue_only [of p s fr] h fr f0 eq c qp show ?thesis by simp
        qed
        from q c have q1: "queue_ok (data s) q [p]" by simp
        from disj c have d1: "p \<notin> set fl" by simp
        from cont1 c have c1: "contents s [p] = [bytes fr ! nat (sint (m_frontItemIdx fr))]"
          by simp
        show ?thesis unfolding c by (rule deq_whole [OF q1 fp dfl d1 len res c1])
      next
        case False
        with ne have two: "Suc 0 < length c" by (cases c) auto
        have "sint (m_backItemIdx fr) = 27"
        proof (rule ccontr)
          assume "sint (m_backItemIdx fr) \<noteq> 27"
          from seg_ok_short [OF sf this ne] two show False by auto
        qed
        with eq have "sint (m_frontItemIdx fr) = 27" by simp
        with q two fp dfl disj len fr show ?thesis by (intro deq_promote) simp_all
      qed
    qed
  qed
qed

subsection \<open>The fragments of a queue and the free list, as computed\<close>

lemma getNextFragment_link:
  assumes "m_nextFragmentIdx u = link c j" "\<forall>x\<in>set c. x < 64"
  shows "getNextFragment u = Some (head_ptr (drop (Suc j) c))"
proof (cases "Suc j < length c")
  case True
  then have "drop (Suc j) c = c ! Suc j # drop (Suc (Suc j)) c"
    by (simp add: Cons_nth_drop_Suc)
  moreover from True assms(2) have "c ! Suc j < 64" by simp
  ultimately show ?thesis using assms(1) True
    by (simp add: link_def head_ptr_def getNextFragment_of_nat)
next
  case False
  with assms(1) show ?thesis by (simp add: link_def head_ptr_def getNextFragment_none)
qed

lemma linked_drop:
  assumes "\<forall>j<length c. c ! j < length d \<and> (\<exists>u. d ! (c ! j) = WhenUsed u \<and> m_nextFragmentIdx u = link c j)"
    and "\<forall>x\<in>set c. x < 64"
  shows "linked d (drop k c)"
proof (induction "length c - k" arbitrary: k)
  case 0
  then show ?case by simp
next
  case (Suc m)
  then have k: "k < length c" by simp
  then have d: "drop k c = c ! k # drop (Suc k) c" by (simp add: Cons_nth_drop_Suc)
  from Suc(2) have "m = length c - Suc k" by simp
  then have "linked d (drop (Suc k) c)" by (rule Suc(1))
  moreover from assms(1) k obtain u where "c ! k < length d" "d ! (c ! k) = WhenUsed u"
    "m_nextFragmentIdx u = link c k" by blast
  moreover from this(3) assms(2) have "getNextFragment u = Some (head_ptr (drop (Suc k) c))"
    by (rule getNextFragment_link)
  moreover from assms(2) k have "c ! k < 64" by simp
  ultimately show ?case unfolding d by simp
qed

lemma queue_ok_bound:
  assumes "queue_ok d q c" "length d = 64"
  shows "\<forall>x\<in>set c. x < 64"
proof
  fix x assume "x \<in> set c"
  then obtain j where "j < length c" "x = c ! j" by (metis in_set_conv_nth)
  with queue_ok_nth [OF assms(1), of j] assms(2) show "x < 64" by simp
qed

lemma queue_ok_linked:
  assumes "queue_ok d q c" "length d = 64"
  shows "linked d c" "q = head_ptr c"
proof -
  have "\<forall>j<length c. c ! j < length d \<and>
      (\<exists>u. d ! (c ! j) = WhenUsed u \<and> m_nextFragmentIdx u = link c j)"
    using queue_ok_nth [OF assms(1)] by (auto simp: seg_ok_def)
  from linked_drop [OF this queue_ok_bound [OF assms], of 0] show "linked d c" by simp
  from assms(1) show "q = head_ptr c" by (simp add: queue_ok_def head_ptr_def)
qed

lemma queue_ok_length:
  assumes "queue_ok d q c" "length d = 64"
  shows "length c \<le> 64"
proof -
  from queue_ok_bound [OF assms] have "set c \<subseteq> {0..<64}" by auto
  then have "card (set c) \<le> card {0..<64::nat}" by (intro card_mono) simp_all
  with queue_ok_distinct [OF assms(1)] show ?thesis by (simp add: distinct_card)
qed

lemma chain_nullptr: "chain n s nullptr = []"
  by (cases n) simp_all

lemma chain_linked:
  "linked (data s) c \<Longrightarrow> length c \<le> n \<Longrightarrow> chain n s (head_ptr c) = c"
proof (induction c arbitrary: n)
  case Nil
  then show ?case by (simp add: head_ptr_def chain_nullptr)
next
  case (Cons p ps)
  then obtain n' where n: "n = Suc n'" by (cases n) auto
  from Cons.prems n have "chain n' s (head_ptr ps) = ps"
    by (intro Cons.IH) simp_all
  with Cons.prems(1) show ?case
    unfolding n by (auto simp: head_ptr_def)
qed

lemma segments_queue_ok:
  assumes "queue_ok (data s) q c" "length (data s) = 64"
  shows "segments s q = c"
  using chain_linked [OF queue_ok_linked(1) [OF assms], of 64] queue_ok_linked(2) [OF assms]
    queue_ok_length [OF assms]
  by (simp add: segments_def numFragments_def)

lemma free_chain_nullptr: "free_chain n s nullptr = []"
  by (cases n) simp_all

lemma free_chain_path:
  "free_path (data s) p fl \<Longrightarrow> length fl \<le> n \<Longrightarrow> free_chain n s p = fl"
proof (induction fl arbitrary: n p)
  case Nil
  then show ?case by (simp add: free_chain_nullptr)
next
  case (Cons x fl)
  then obtain n' where n: "n = Suc n'" by (cases n) auto
  from Cons.prems obtain m where p: "p = Ptr x" "x < length (data s)" "data s ! x = NextFree m"
    "free_path (data s) m fl" by auto
  from p(4) Cons.prems(2) n have "free_chain n' s m = fl"
    by (intro Cons.IH) simp_all
  with p show ?case unfolding n by simp
qed

lemma free_path_bound:
  "free_path d p fl \<Longrightarrow> \<forall>x\<in>set fl. x < length d"
  by (induction fl arbitrary: p) auto

lemma freeList_path:
  assumes "free_path (data s) (nextFreeFragment s) fl" "distinct fl" "length (data s) = 64"
  shows "freeList s = fl"
proof -
  from free_path_bound [OF assms(1)] assms(3) have "set fl \<subseteq> {0..<64}" by auto
  then have "card (set fl) \<le> card {0..<64::nat}" by (intro card_mono) simp_all
  with assms(2) have "length fl \<le> 64" by (simp add: distinct_card)
  with free_chain_path [OF assms(1), of 64] show ?thesis
    by (simp add: freeList_def numFragments_def)
qed

subsection \<open>destroy_queue and create_queue keep the invariant\<close>

lemma release_one_fields:
  "length (data (release_one p s)) = length (data s)"
  "reports (release_one p s) = reports s"
  "nextFreeFragment (release_one p s) = Ptr p"
  "y \<noteq> p \<Longrightarrow> data (release_one p s) ! y = data s ! y"
  by (simp_all add: release_one_def)

lemma release_Cons: "release (p # ps) s = release ps (release_one p s)"
  by (simp add: release_def)

lemma release_Nil: "release [] s = s"
  by (simp add: release_def)

lemma release_fields:
  "length (data (release c s)) = length (data s) \<and> reports (release c s) = reports s \<and>
   (\<forall>y. y \<notin> set c \<longrightarrow> data (release c s) ! y = data s ! y)"
proof (induction c arbitrary: s)
  case Nil
  then show ?case by (simp add: release_Nil)
next
  case (Cons p ps)
  from Cons [of "release_one p s"] show ?case
    by (simp add: release_Cons release_one_fields)
qed

lemma linked_release_one:
  "linked (data s) ps \<Longrightarrow> p \<notin> set ps \<Longrightarrow> linked (data (release_one p s)) ps"
proof (induction ps)
  case Nil
  then show ?case by simp
next
  case (Cons y ys)
  then have "y \<noteq> p" by auto
  with Cons show ?case by (auto simp: release_one_fields)
qed

lemma destroy_linked:
  "linked (data s) c \<Longrightarrow> distinct c \<Longrightarrow>
   destroy_queue (head_ptr c) s = Some (nullptr, release c s)"
proof (induction c arbitrary: s)
  case Nil
  then show ?case by (simp add: head_ptr_def destroy_queue.simps release_Nil)
next
  case (Cons p ps)
  from Cons.prems obtain u where p: "p < length (data s)" "data s ! p = WhenUsed u"
    "getNextFragment u = Some (head_ptr ps)" and l: "linked (data s) ps" by auto
  from p(1) have d: "deallocate (Ptr p) s = Some (release_one p s)"
    by (simp add: deallocate_Ptr release_one_def)
  from l Cons.prems(2) have "linked (data (release_one p s)) ps"
    by (intro linked_release_one) simp_all
  with Cons.prems(2) have "destroy_queue (head_ptr ps) (release_one p s) =
      Some (nullptr, release ps (release_one p s))"
    by (intro Cons.IH) simp_all
  with p d show ?case
    by (subst destroy_queue.simps) (simp add: head_ptr_def release_Cons)
qed

lemma free_path_release_one:
  assumes "free_path (data s) (nextFreeFragment s) fl" "p \<notin> set fl" "p < length (data s)"
  shows "free_path (data (release_one p s)) (nextFreeFragment (release_one p s)) (p # fl)"
  using assms by (simp add: release_one_def free_path_update)

lemma free_path_released:
  "free_path (data s) (nextFreeFragment s) fl \<Longrightarrow> distinct c \<Longrightarrow> set c \<inter> set fl = {} \<Longrightarrow>
   \<forall>x\<in>set c. x < length (data s) \<Longrightarrow>
   free_path (data (release c s)) (nextFreeFragment (release c s)) (rev c @ fl)"
proof (induction c arbitrary: s fl)
  case Nil
  then show ?case by (simp add: release_Nil)
next
  case (Cons p ps)
  from Cons.prems have "free_path (data (release_one p s)) (nextFreeFragment (release_one p s)) (p # fl)"
    by (intro free_path_release_one) auto
  moreover from Cons.prems have "distinct ps" "set ps \<inter> set (p # fl) = {}"
    "\<forall>x\<in>set ps. x < length (data (release_one p s))"
    by (auto simp: release_one_fields)
  ultimately have "free_path (data (release ps (release_one p s)))
      (nextFreeFragment (release ps (release_one p s))) (rev ps @ p # fl)"
    by (rule Cons.IH)
  then show ?case by (simp add: release_Cons)
qed

lemma destroy_local:
  assumes q: "queue_ok (data s) q c" and fp: "free_path (data s) (nextFreeFragment s) fl"
    and dfl: "distinct fl" and disj: "set c \<inter> set fl = {}" and len: "length (data s) = 64"
  shows "destroy_post s fl c q (destroy_queue q s)"
proof -
  from queue_ok_linked [OF q len] queue_ok_distinct [OF q]
  have res: "destroy_queue q s = Some (nullptr, release c s)"
    by (simp add: destroy_linked)
  from queue_ok_bound [OF q len] len have b: "\<forall>x\<in>set c. x < length (data s)" by simp
  note rf = release_fields [of c s]
  have ls: "local_step s fl c (release c s) nullptr (rev c @ fl) []"
  proof (rule local_stepI)
    show "free_path (data (release c s)) (nextFreeFragment (release c s)) (rev c @ fl)"
      using fp queue_ok_distinct [OF q] disj b by (rule free_path_released)
    show "queue_ok (data (release c s)) nullptr []" by (rule queue_ok_null)
    show "distinct (rev c @ fl)" using dfl disj queue_ok_distinct [OF q] by auto
    show "data (release c s) ! y = data s ! y" if "y \<notin> set c" for y
      using rf that by simp
  qed (use rf len in auto)
  show ?thesis
    unfolding destroy_post_def res using ls rf by (auto simp: release_Nil)
qed

lemma seg_ok_fresh:
  "seg_ok [n] 0 \<lparr>m_backFragmentIdx = of_nat n, m_nextFragmentIdx = -1, m_frontItemIdx = -1,
       m_backItemIdx = -1, bytes = replicate 28 0\<rparr>"
  by (simp add: seg_ok_def link_def)

lemma create_local:
  assumes fp: "free_path (data s) (nextFreeFragment s) fl"
    and dfl: "distinct fl" and len: "length (data s) = 64"
  shows "create_post s fl (create_queue s)"
proof (cases fl)
  case Nil
  with fp have "nextFreeFragment s = nullptr" by simp
  then have res: "create_queue s = Some (nullptr, on_out_of_memory s)"
    by (rule create_queue_none)
  have "local_step s fl [] (on_out_of_memory s) nullptr fl []"
    unfolding on_out_of_memory_def using queue_ok_null fp dfl _ len
    by (rule local_step_refl) simp
  with Nil res show ?thesis by (simp add: create_post_def)
next
  case (Cons n fl')
  let ?u = "\<lparr>m_backFragmentIdx = of_nat n, m_nextFragmentIdx = -1, m_frontItemIdx = -1,
       m_backItemIdx = -1, bytes = replicate 28 0\<rparr>"
  from fp Cons obtain m where nf: "nextFreeFragment s = Ptr n" and n: "n < length (data s)"
    and dn: "data s ! n = NextFree m" and fp1: "free_path (data s) m fl'" by auto
  let ?s = "s\<lparr>data := (data s)[n := WhenUsed ?u], nextFreeFragment := m\<rparr>"
  have res: "create_queue s = Some (Ptr n, ?s)"
    using nf n dn by (rule create_queue_free)
  from n have q': "queue_ok (data ?s) (Ptr n) [n]"
    by (intro queue_ok_single [OF _ _ seg_ok_fresh]) simp_all
  from dfl Cons fp1 have fp': "free_path (data ?s) (nextFreeFragment ?s) fl'"
    by (simp add: free_path_update)
  have ls: "local_step s fl [] ?s (Ptr n) fl' [n]"
  proof (rule local_stepI)
    show "data ?s ! y = data s ! y" if "y \<notin> set fl" for y
      using that Cons by simp
  qed (use q' fp' dfl Cons len in auto)
  from n have "contents ?s [n] = []"
    by (simp add: contents_def items_at_def items_fresh)
  with Cons res ls show ?thesis
    unfolding create_post_def
    by (intro exI [of _ "Ptr n"] exI [of _ ?s] exI [of _ fl'] exI [of _ "[n]"]) simp
qed

subsection \<open>The invariant holds in every reachable state\<close>

lemma data_FragmentPool:
  "data FragmentPool = map (\<lambda>i. NextFree (if Suc i < 64 then Ptr (Suc i) else nullptr)) [0..<64]"
  by code_simp

lemma FragmentPool_fields:
  "nextFreeFragment FragmentPool = Ptr 0" "reports FragmentPool = []"
  by (simp_all add: FragmentPool_def Let_def)

lemma free_path_upt:
  assumes "\<forall>i<n. d ! i = NextFree (if Suc i < n then Ptr (Suc i) else nullptr)" "length d = n"
  shows "k \<le> n \<Longrightarrow> free_path d (if k < n then Ptr k else nullptr) [k..<n]"
proof (induction "n - k" arbitrary: k)
  case 0
  then show ?case by simp
next
  case (Suc m)
  then have k: "k < n" by simp
  from Suc(2) have "m = n - Suc k" by simp
  moreover from k have "Suc k \<le> n" by simp
  ultimately have "free_path d (if Suc k < n then Ptr (Suc k) else nullptr) [Suc k..<n]"
    by (rule Suc(1))
  with assms k show ?case by (simp add: upt_conv_Cons)
qed

lemma pool_ok_start: "pool_ok [] FragmentPool [0..<64] []"
proof (rule pool_okI)
  show "length (data FragmentPool) = 64" by (simp add: data_FragmentPool)
  have "free_path (data FragmentPool) (if (0::nat) < 64 then Ptr 0 else nullptr) [0..<64]"
    by (rule free_path_upt) (simp_all add: data_FragmentPool)
  then show "free_path (data FragmentPool) (nextFreeFragment FragmentPool) [0..<64]"
    by (simp add: FragmentPool_fields)
qed simp_all

lemma pool_ok_new:
  assumes ok: "pool_ok qs s fl cs" and ls: "local_step s fl [] s' q' fl' c'"
  shows "pool_ok (qs @ [q']) s' fl' (cs @ [c'])"
proof -
  from ok have lcs: "length cs = length qs" by (simp add: pool_ok_length)
  from pool_ok_Null [OF ok] have "pool_ok ((qs @ [nullptr])[length qs := q']) s' fl'
      ((cs @ [[]])[length cs := c'])"
    unfolding lcs by (rule pool_ok_step) (use ls lcs in \<open>simp_all add: nth_append\<close>)
  then show ?thesis by simp
qed

lemma step_pool_ok:
  assumes ok: "pool_ok qs s fl cs" and st: "step c qs s = Some (out, qs', s')"
  shows "\<exists>fl' cs'. pool_ok qs' s' fl' cs'"
proof (cases c)
  case Null_queue
  with st pool_ok_Null [OF ok] show ?thesis by auto
next
  case Create_queue
  from pool_ok_free [OF ok] pool_ok_length [OF ok]
  have "create_post s fl (create_queue s)" by (intro create_local) simp_all
  then obtain q' s1 fl' c' where r: "create_queue s = Some (q', s1)"
    and ls: "local_step s fl [] s1 q' fl' c'"
    unfolding create_post_def by blast
  from st Create_queue r have "qs' = qs @ [q']" "s' = s1" by simp_all
  with pool_ok_new [OF ok ls] show ?thesis by blast
next
  case (Enqueue_byte i b)
  with st have i: "i < length qs" by (simp split: if_splits)
  from pool_ok_queue [OF ok i] pool_ok_free [OF ok] pool_ok_length [OF ok]
  have "enq_post s fl (cs ! i) (qs ! i) b (enqueue_byte (qs ! i) b s)"
    by (intro enqueue_local) simp_all
  then obtain q' s1 fl' c' where r: "enqueue_byte (qs ! i) b s = Some (q', s1)"
    and ls: "local_step s fl (cs ! i) s1 q' fl' c'"
    unfolding enq_post_def by blast
  from st Enqueue_byte i r have "qs' = qs[i := q']" "s' = s1" by simp_all
  with pool_ok_step [OF ok i ls] show ?thesis by blast
next
  case (Dequeue_byte i)
  with st have i: "i < length qs" by (simp split: if_splits)
  from pool_ok_queue [OF ok i] pool_ok_free [OF ok] pool_ok_length [OF ok]
  have "deq_post s fl (cs ! i) (qs ! i) (dequeue_byte (qs ! i) s)"
    by (intro dequeue_local) simp_all
  then obtain b q' s1 fl' c' where r: "dequeue_byte (qs ! i) s = Some (b, q', s1)"
    and ls: "local_step s fl (cs ! i) s1 q' fl' c'"
    unfolding deq_post_def by blast
  from st Dequeue_byte i r have "qs' = qs[i := q']" "s' = s1" by simp_all
  with pool_ok_step [OF ok i ls] show ?thesis by blast
next
  case (Destroy_queue i)
  with st have i: "i < length qs" by (simp split: if_splits)
  from pool_ok_queue [OF ok i] pool_ok_free [OF ok] pool_ok_length [OF ok]
  have "destroy_post s fl (cs ! i) (qs ! i) (destroy_queue (qs ! i) s)"
    by (intro destroy_local) simp_all
  then obtain s1 where r: "destroy_queue (qs ! i) s = Some (nullptr, s1)"
    and ls: "local_step s fl (cs ! i) s1 nullptr (rev (cs ! i) @ fl) []"
    unfolding destroy_post_def by blast
  from st Destroy_queue i r have "qs' = qs[i := nullptr]" "s' = s1" by simp_all
  with pool_ok_step [OF ok i ls] show ?thesis by blast
qed

lemma pool_ok_canonical:
  assumes ok: "pool_ok qs s fl cs"
  shows "fl = freeList s" "cs = map (segments s) qs"
proof -
  from pool_ok_free [OF ok] pool_ok_length [OF ok] show "fl = freeList s"
    by (auto simp: freeList_path)
  show "cs = map (segments s) qs"
  proof (rule nth_equalityI)
    show "length cs = length (map (segments s) qs)" using pool_ok_length [OF ok] by simp
    fix i assume "i < length cs"
    with pool_ok_length [OF ok] have i: "i < length qs" by simp
    from pool_ok_queue [OF ok i] pool_ok_length [OF ok] have "segments s (qs ! i) = cs ! i"
      by (intro segments_queue_ok) simp_all
    with i show "cs ! i = map (segments s) qs ! i" by simp
  qed
qed

lemma reachable_pool_ok:
  "reachable qs s \<Longrightarrow> pool_ok qs s (freeList s) (map (segments s) qs)"
proof -
  assume "reachable qs s"
  then have "\<exists>fl cs. pool_ok qs s fl cs"
  proof (induction rule: reachable.induct)
    case start
    from pool_ok_start show ?case by blast
  next
    case (after qs s c out qs' s')
    then obtain fl cs where "pool_ok qs s fl cs" by blast
    from step_pool_ok [OF this after(2)] show ?case .
  qed
  then obtain fl cs where ok: "pool_ok qs s fl cs" by blast
  with pool_ok_canonical [OF ok] show ?thesis by simp
qed

lemma exec_reachable:
  "reachable qs s \<Longrightarrow> exec cs qs s = Some (out, qs', s') \<Longrightarrow> reachable qs' s'"
proof (induction cs arbitrary: qs s out)
  case Nil
  then show ?case by simp
next
  case (Cons c cs)
  from Cons.prems(2) obtain o1 qs1 s1 o2 where st: "step c qs s = Some (o1, qs1, s1)"
    and ex: "exec cs qs1 s1 = Some (o2, qs', s')"
    by (auto split: Option.bind_splits)
  from Cons.prems(1) st have "reachable qs1 s1" by (rule reachable.after)
  from this ex show ?case by (rule Cons.IH)
qed

section \<open>The claims\<close>

subsection \<open>C1: round trip\<close>

lemma queue_bytes_contents: "queue_bytes s q = contents s (segments s q)"
  by (simp add: queue_bytes_def contents_def)

lemma enqueue_bytes_ok:
  "pool_ok qs s fl cs \<Longrightarrow> i < length qs \<Longrightarrow> length bs \<le> room_g s fl (cs ! i) \<Longrightarrow>
   \<exists>q' s' fl' c'. enqueue_bytes (qs ! i) bs s = Some (q', s') \<and>
     pool_ok (qs[i := q']) s' fl' (cs[i := c']) \<and>
     contents s' c' = contents s (cs ! i) @ bs \<and> reports s' = reports s"
proof (induction bs arbitrary: qs s fl cs)
  case Nil
  have "pool_ok (qs[i := qs ! i]) s fl (cs[i := cs ! i])" using Nil(1) by simp
  then show ?case by (intro exI [of _ "qs ! i"] exI [of _ s] exI [of _ fl] exI [of _ "cs ! i"]) simp
next
  case (Cons b bs)
  note ok = Cons.prems(1) and i = Cons.prems(2)
  from ok have lcs: "length cs = length qs" by (simp add: pool_ok_length)
  from pool_ok_queue [OF ok i] pool_ok_free [OF ok] pool_ok_length [OF ok]
  have "enq_post s fl (cs ! i) (qs ! i) b (enqueue_byte (qs ! i) b s)"
    by (intro enqueue_local) simp_all
  moreover from Cons.prems(3) have nz: "room_g s fl (cs ! i) \<noteq> 0" by auto
  ultimately obtain q1 s1 fl1 c1 where r: "enqueue_byte (qs ! i) b s = Some (q1, s1)"
    and ls: "local_step s fl (cs ! i) s1 q1 fl1 c1" and rep: "reports s1 = reports s"
    and cont: "contents s1 c1 = contents s (cs ! i) @ [b]"
    and rm: "room_g s1 fl1 c1 + 1 = room_g s fl (cs ! i)"
    unfolding enq_post_def by auto
  have ok1: "pool_ok (qs[i := q1]) s1 fl1 (cs[i := c1])" using ok i ls by (rule pool_ok_step)
  from i lcs have at: "qs[i := q1] ! i = q1" "cs[i := c1] ! i = c1" by simp_all
  from Cons.prems(3) rm have "length bs \<le> room_g s1 fl1 (cs[i := c1] ! i)"
    unfolding at by simp
  with ok1 i have "\<exists>q' s' fl' c'. enqueue_bytes (qs[i := q1] ! i) bs s1 = Some (q', s') \<and>
     pool_ok (qs[i := q1, i := q']) s' fl' (cs[i := c1, i := c']) \<and>
     contents s' c' = contents s1 (cs[i := c1] ! i) @ bs \<and> reports s' = reports s1"
    by (intro Cons.IH) simp_all
  then obtain q' s' fl' c' where "enqueue_bytes q1 bs s1 = Some (q', s')"
    "pool_ok (qs[i := q']) s' fl' (cs[i := c'])"
    "contents s' c' = contents s1 c1 @ bs" "reports s' = reports s1"
    unfolding at by auto
  with r rep cont show ?case
    by (intro exI [of _ q'] exI [of _ s'] exI [of _ fl'] exI [of _ c']) simp
qed

lemma dequeue_bytes_ok:
  "pool_ok qs s fl cs \<Longrightarrow> i < length qs \<Longrightarrow> contents s (cs ! i) = xs @ ys \<Longrightarrow>
   \<exists>q' s' fl' c'. dequeue_bytes (length xs) (qs ! i) s = Some (xs, q', s') \<and>
     pool_ok (qs[i := q']) s' fl' (cs[i := c']) \<and>
     contents s' c' = ys \<and> reports s' = reports s \<and> (xs \<noteq> [] \<and> ys = [] \<longrightarrow> q' = nullptr)"
proof (induction xs arbitrary: qs s fl cs)
  case Nil
  have "pool_ok (qs[i := qs ! i]) s fl (cs[i := cs ! i])" using Nil(1) by simp
  with Nil(3) show ?case
    by (intro exI [of _ "qs ! i"] exI [of _ s] exI [of _ fl] exI [of _ "cs ! i"]) simp
next
  case (Cons x xs)
  note ok = Cons.prems(1) and i = Cons.prems(2)
  from ok have lcs: "length cs = length qs" by (simp add: pool_ok_length)
  from pool_ok_queue [OF ok i] pool_ok_free [OF ok] pool_ok_length [OF ok]
  have "deq_post s fl (cs ! i) (qs ! i) (dequeue_byte (qs ! i) s)"
    by (intro dequeue_local) simp_all
  moreover from Cons.prems(3) have "contents s (cs ! i) \<noteq> []" by simp
  ultimately obtain b q1 s1 fl1 c1 where r: "dequeue_byte (qs ! i) s = Some (b, q1, s1)"
    and ls: "local_step s fl (cs ! i) s1 q1 fl1 c1" and rep: "reports s1 = reports s"
    and cont: "contents s (cs ! i) = b # contents s1 c1"
    and last: "c1 = [] \<or> contents s1 c1 \<noteq> []"
    unfolding deq_post_def by auto
  from cont Cons.prems(3) have bx: "b = x" and rest: "contents s1 c1 = xs @ ys" by simp_all
  have ok1: "pool_ok (qs[i := q1]) s1 fl1 (cs[i := c1])" using ok i ls by (rule pool_ok_step)
  from i lcs have at: "qs[i := q1] ! i = q1" "cs[i := c1] ! i = c1" by simp_all
  from rest have "contents s1 (cs[i := c1] ! i) = xs @ ys" unfolding at .
  with ok1 i have "\<exists>q' s' fl' c'. dequeue_bytes (length xs) (qs[i := q1] ! i) s1 = Some (xs, q', s') \<and>
     pool_ok (qs[i := q1, i := q']) s' fl' (cs[i := c1, i := c']) \<and>
     contents s' c' = ys \<and> reports s' = reports s1 \<and> (xs \<noteq> [] \<and> ys = [] \<longrightarrow> q' = nullptr)"
    by (intro Cons.IH) simp_all
  then obtain q' s' fl' c' where d: "dequeue_bytes (length xs) q1 s1 = Some (xs, q', s')"
    and ok': "pool_ok (qs[i := q']) s' fl' (cs[i := c'])"
    and c': "contents s' c' = ys" "reports s' = reports s1"
    and n': "xs \<noteq> [] \<and> ys = [] \<longrightarrow> q' = nullptr"
    unfolding at by auto
  have "q' = nullptr" if "ys = []"
  proof (cases "xs = []")
    case True
    with d have "q' = q1" by simp
    moreover from True rest that last have "c1 = []" by simp
    with pool_ok_queue [OF ok1, of i] i at have "q1 = nullptr" by (simp add: queue_ok_empty)
    ultimately show ?thesis by simp
  next
    case False
    with n' that show ?thesis by simp
  qed
  with r bx d ok' c' rep show ?case
    by (intro exI [of _ q'] exI [of _ s'] exI [of _ fl'] exI [of _ c']) simp
qed

lemma fifo_order:
  assumes "reachable qs s" and "i < length qs"
    and "length bs \<le> room s (qs ! i)" and "queue_bytes s (qs ! i) @ bs \<noteq> []"
  shows "\<exists>q1 s1 s2. enqueue_bytes (qs ! i) bs s = Some (q1, s1) \<and> reports s1 = reports s \<and>
           queue_bytes s1 q1 = queue_bytes s (qs ! i) @ bs \<and>
           dequeue_bytes (length (queue_bytes s (qs ! i) @ bs)) q1 s1 =
             Some (queue_bytes s (qs ! i) @ bs, nullptr, s2) \<and>
           reports s2 = reports s"
proof -
  let ?fl = "freeList s" and ?cs = "map (segments s) qs"
  let ?old = "queue_bytes s (qs ! i)"
  from assms(1) have ok: "pool_ok qs s ?fl ?cs" by (rule reachable_pool_ok)
  from assms(2) have at: "?cs ! i = segments s (qs ! i)" by simp
  from assms(3) have "length bs \<le> room_g s ?fl (?cs ! i)" by (simp add: room_def at)
  from enqueue_bytes_ok [OF ok assms(2) this]
  obtain q1 s1 fl1 c1 where e: "enqueue_bytes (qs ! i) bs s = Some (q1, s1)"
    and ok1: "pool_ok (qs[i := q1]) s1 fl1 (?cs[i := c1])"
    and c1: "contents s1 c1 = contents s (?cs ! i) @ bs" and r1: "reports s1 = reports s"
    by blast
  from assms(2) have i1: "i < length (qs[i := q1])" by simp
  from pool_ok_queue [OF ok1 i1] assms(2) have "queue_ok (data s1) q1 c1" by simp
  with pool_ok_length [OF ok1] have "segments s1 q1 = c1" by (simp add: segments_queue_ok)
  with c1 at have qb: "queue_bytes s1 q1 = ?old @ bs" by (simp add: queue_bytes_contents)
  from c1 assms(2) have "contents s1 (?cs[i := c1] ! i) = (?old @ bs) @ []"
    by (simp add: queue_bytes_contents)
  from dequeue_bytes_ok [OF ok1 i1 this] assms(2,4)
  obtain s2 where "dequeue_bytes (length (?old @ bs)) q1 s1 = Some (?old @ bs, nullptr, s2)"
    "reports s2 = reports s1"
    by auto
  with e r1 qb show ?thesis by auto
qed

text \<open>
  Claim C1 (round trip, FIFO). In every reachable state, for every queue variable that
  holds no byte (an empty handle, or a queue just created) and every non-empty list of
  bytes \<open>bs\<close> that fits in the pool (\<open>room\<close>: the free places of the back fragment plus
  28 for each free fragment), enqueueing \<open>bs\<close> byte by byte succeeds without a report,
  and \<open>length bs\<close> calls of \<^verbatim>\<open>dequeue_byte\<close> then return exactly \<open>bs\<close> in order and
  leave the handle \<^verbatim>\<open>nullptr\<close>, again without a report. \<open>bs\<close> is arbitrary, so the
  statement covers one fragment and several (more than 28 bytes). (For a queue that
  already holds bytes, \<open>fifo_order\<close> gives the same with the old bytes first.)
\<close>

theorem fifo_round_trip:
  assumes "reachable qs s" and "i < length qs"
    and "queue_bytes s (qs ! i) = []" and "bs \<noteq> []" and "length bs \<le> room s (qs ! i)"
  shows "\<exists>q1 s1 s2. enqueue_bytes (qs ! i) bs s = Some (q1, s1) \<and> reports s1 = reports s \<and>
           dequeue_bytes (length bs) q1 s1 = Some (bs, nullptr, s2) \<and> reports s2 = reports s"
  using fifo_order [OF assms(1,2,5)] assms(3,4) by auto

lemma freeList_FragmentPool: "freeList FragmentPool = [0..<64]"
  using pool_ok_canonical(1) [OF pool_ok_start] by simp

lemma reachable_Null: "reachable [nullptr] FragmentPool"
  by (rule reachable.after [OF reachable.start, of Null_queue]) simp

lemma room_FragmentPool: "room FragmentPool nullptr = 1792"
  by (simp add: room_def room_g_def back_room_def segments_def chain_nullptr freeList_FragmentPool)

theorem fifo_round_trip_witness:
  "reachable [nullptr] FragmentPool \<and> queue_bytes FragmentPool ([nullptr] ! 0) = [] \<and>
   length (map of_nat [1..<30] :: byte list) \<le> room FragmentPool ([nullptr] ! 0) \<and>
   (\<exists>q1 s1 s2.
      enqueue_bytes ([nullptr] ! 0) (map of_nat [1..<30]) FragmentPool = Some (q1, s1) \<and>
      reports s1 = reports FragmentPool \<and>
      dequeue_bytes (length (map of_nat [1..<30] :: byte list)) q1 s1 =
        Some (map of_nat [1..<30], nullptr, s2) \<and>
      reports s2 = reports FragmentPool)"
proof -
  have q: "queue_bytes FragmentPool ([nullptr] ! 0) = []"
    by (simp add: queue_bytes_def segments_def chain_nullptr)
  have r: "length (map of_nat [1..<30] :: byte list) \<le> room FragmentPool ([nullptr] ! 0)"
    by (simp add: room_FragmentPool)
  from fifo_round_trip [OF reachable_Null _ q _ r] reachable_Null q r show ?thesis
    by simp
qed

subsection \<open>C4 and C10: dequeue_byte on a queue without bytes\<close>

lemma reachable_run: "reachable (fst (run cs)) (snd (run cs))"
proof (cases "exec cs [] FragmentPool")
  case None
  then show ?thesis by (simp add: run_def reachable.start)
next
  case (Some r)
  then obtain out qs s where "exec cs [] FragmentPool = Some (out, qs, s)" by (cases r) auto
  with exec_reachable [OF reachable.start this] show ?thesis by (simp add: run_def)
qed

lemma store_fields:
  "store p c s = Some s' \<Longrightarrow>
   reports s' = reports s \<and> nextFreeFragment s' = nextFreeFragment s"
  by (cases p) (auto split: if_splits)

lemma modify_fields:
  "modify p f s = Some s' \<Longrightarrow>
   reports s' = reports s \<and> nextFreeFragment s' = nextFreeFragment s"
  by (auto simp: modify_def split: Option.bind_splits dest: store_fields)

lemma deallocate_reports: "deallocate p s = Some s' \<Longrightarrow> reports s' = reports s"
  by (auto simp: deallocate_def eraseFragment_def setNextFree_def
      split: Option.bind_splits dest!: store_fields)

lemma dequeue_byte_reports:
  assumes "dequeue_byte front s = Some (b, front', s')"
    and "front \<noteq> nullptr" and "\<And>fr. whenUsed s front = Some fr \<Longrightarrow> \<not> isEmpty fr"
  shows "reports s' = reports s"
proof -
  from assms(1,2) obtain fr where fr: "whenUsed s front = Some fr"
    by (auto simp: dequeue_byte_def split: Option.bind_splits)
  with assms(3) have ne: "\<not> isEmpty fr" by simp
  note setters = setBackFragmentIdx_def setFrontItemIdx_def incrementFrontItemIdx_def
  from assms(1,2) fr ne show ?thesis
    by (auto simp: dequeue_byte_def setters
        split: Option.bind_splits if_splits dest!: modify_fields deallocate_reports)
qed

text \<open>
  Claim C4 (EmptyQueue). \<^verbatim>\<open>dequeue_byte\<close> calls \<^verbatim>\<open>on_illegal_operation\<close> exactly
  when the handle is \<^verbatim>\<open>nullptr\<close> or the front fragment \<^verbatim>\<open>isEmpty\<close>. In that case
  it returns 0, the handle is the one passed in, and the state differs from the one
  before only by the report (\<open>data\<close> and \<open>nextFreeFragment\<close> are the same). In the
  other case, whenever the call returns, no report is added.
\<close>

theorem dequeue_byte_EmptyQueue:
  "((front = nullptr \<or> (\<exists>fr. whenUsed s front = Some fr \<and> isEmpty fr)) \<longrightarrow>
      dequeue_byte front s = Some (0, front, on_illegal_operation s) \<and>
      data (on_illegal_operation s) = data s \<and>
      nextFreeFragment (on_illegal_operation s) = nextFreeFragment s \<and>
      reports (on_illegal_operation s) = reports s @ [EmptyQueue]) \<and>
   (\<not> (front = nullptr \<or> (\<exists>fr. whenUsed s front = Some fr \<and> isEmpty fr)) \<longrightarrow>
      (\<forall>b front' s'. dequeue_byte front s = Some (b, front', s') \<longrightarrow> reports s' = reports s))"
proof (intro conjI impI allI)
  assume "front = nullptr \<or> (\<exists>fr. whenUsed s front = Some fr \<and> isEmpty fr)"
  then show "dequeue_byte front s = Some (0, front, on_illegal_operation s)"
    by (auto simp: dequeue_byte_def)
next
  fix b front' s'
  assume "\<not> (front = nullptr \<or> (\<exists>fr. whenUsed s front = Some fr \<and> isEmpty fr))"
    and "dequeue_byte front s = Some (b, front', s')"
  then show "reports s' = reports s"
    by (intro dequeue_byte_reports [of front s b front' s']) auto
qed (simp_all add: on_illegal_operation_def)

lemma run_one_byte:
  "run [Null_queue, Enqueue_byte 0 7] =
     ([Ptr 0], FragmentPool\<lparr>data := (data FragmentPool)[0 := WhenUsed
        \<lparr>m_backFragmentIdx = 0, m_nextFragmentIdx = -1, m_frontItemIdx = 0,
         m_backItemIdx = 0, bytes = 7 # replicate 27 0\<rparr>], nextFreeFragment := Ptr 1\<rparr>)"
  by code_simp

theorem dequeue_byte_EmptyQueue_witness:
  "dequeue_byte nullptr FragmentPool = Some (0, nullptr, on_illegal_operation FragmentPool) \<and>
   reports (on_illegal_operation FragmentPool) = reports FragmentPool @ [EmptyQueue] \<and>
   dequeue_byte (Ptr 0) (snd (run [Null_queue, Enqueue_byte 0 7])) \<noteq> None \<and>
   (\<exists>b front' s'. dequeue_byte (Ptr 0) (snd (run [Null_queue, Enqueue_byte 0 7])) = Some (b, front', s') \<and>
      reports s' = reports (snd (run [Null_queue, Enqueue_byte 0 7])))"
proof -
  let ?s = "snd (run [Null_queue, Enqueue_byte 0 7])"
  have fr: "whenUsed ?s (Ptr 0) = Some \<lparr>m_backFragmentIdx = 0, m_nextFragmentIdx = -1,
      m_frontItemIdx = 0, m_backItemIdx = 0, bytes = 7 # replicate 27 0\<rparr>"
    by (simp add: run_one_byte data_FragmentPool)
  then have ne: "\<not> (Ptr 0 = nullptr \<or> (\<exists>fr. whenUsed ?s (Ptr 0) = Some fr \<and> isEmpty fr))"
    by (simp add: isEmpty_def)
  have d: "dequeue_byte (Ptr 0) ?s \<noteq> None"
    by (simp add: run_one_byte data_FragmentPool dequeue_byte_def isEmpty_def getFrontByte_def
        getByte_def isFrontItemAtEnd_def incrementFrontItemIdx_def modify_def deallocate_Ptr)
  then obtain b front' s' where r: "dequeue_byte (Ptr 0) ?s = Some (b, front', s')" by auto
  from dequeue_byte_EmptyQueue [of nullptr FragmentPool] dequeue_byte_EmptyQueue [of "Ptr 0" ?s]
    ne d r show ?thesis by auto
qed

text \<open>
  Claim C10 (the sentinel). Whenever \<^verbatim>\<open>dequeue_byte\<close> is called with a handle that
  is \<^verbatim>\<open>nullptr\<close> or whose front fragment \<^verbatim>\<open>isEmpty\<close>, the byte it returns is 0.
\<close>

theorem dequeue_byte_sentinel:
  assumes "front = nullptr \<or> (\<exists>fr. whenUsed s front = Some fr \<and> isEmpty fr)"
  shows "\<exists>front' s'. dequeue_byte front s = Some (0, front', s')"
  using assms by (auto simp: dequeue_byte_def)

lemma run_created:
  "run [Create_queue] =
     ([Ptr 0], FragmentPool\<lparr>data := (data FragmentPool)[0 := WhenUsed
        \<lparr>m_backFragmentIdx = 0, m_nextFragmentIdx = -1, m_frontItemIdx = -1,
         m_backItemIdx = -1, bytes = replicate 28 0\<rparr>], nextFreeFragment := Ptr 1\<rparr>)"
  by code_simp

theorem dequeue_byte_sentinel_witness:
  "(\<exists>fr. whenUsed (snd (run [Create_queue])) (Ptr 0) = Some fr \<and> isEmpty fr) \<and>
   (\<exists>front' s'. dequeue_byte (Ptr 0) (snd (run [Create_queue])) = Some (0, front', s'))"
proof -
  have e: "\<exists>fr. whenUsed (snd (run [Create_queue])) (Ptr 0) = Some fr \<and> isEmpty fr"
    by (simp add: run_created data_FragmentPool isEmpty_def)
  then have "Ptr 0 = nullptr \<or> (\<exists>fr. whenUsed (snd (run [Create_queue])) (Ptr 0) = Some fr \<and> isEmpty fr)"
    by simp
  from dequeue_byte_sentinel [OF this] e show ?thesis by simp
qed

subsection \<open>C3: allocation failure\<close>

lemma whenUsed_reports: "whenUsed (s\<lparr>reports := r\<rparr>) p = whenUsed s p"
  by (cases p) simp_all

lemma chain_reports: "chain n (s\<lparr>reports := r\<rparr>) p = chain n s p"
proof (induction n arbitrary: p)
  case 0
  then show ?case by simp
next
  case (Suc n)
  show ?case
  proof (cases p)
    case nullptr
    then show ?thesis by simp
  next
    case (Ptr x)
    have "whenUsed (s\<lparr>reports := r\<rparr>) (Ptr x) = whenUsed s (Ptr x)" by (rule whenUsed_reports)
    with Suc Ptr show ?thesis by (simp split: option.splits del: whenUsed.simps)
  qed
qed

lemma items_at_reports: "items_at (s\<lparr>reports := r\<rparr>) = items_at s"
  by (rule ext) (simp add: items_at_def whenUsed_reports del: whenUsed.simps)

lemma queue_bytes_reports:
  "segments (s\<lparr>reports := r\<rparr>) q = segments s q"
  "queue_bytes (s\<lparr>reports := r\<rparr>) q = queue_bytes s q"
  by (simp_all add: segments_def queue_bytes_def chain_reports items_at_reports)

lemma enqueue_byte_back_full:
  assumes "back_full s front" "nextFreeFragment s = nullptr"
  shows "enqueue_byte front byte s = Some (front, on_out_of_memory s)"
proof -
  from assms(1) obtain fr currentBack bk where "whenUsed s front = Some fr"
    "getBackFragment fr = Some currentBack" "whenUsed s currentBack = Some bk"
    "isBackItemAtEnd bk"
    by (auto simp: back_full_def split: option.splits)
  moreover from this(1) have "front \<noteq> nullptr" by auto
  ultimately show ?thesis using assms(2)
    by (simp add: enqueue_byte_def allocate_none)
qed

text \<open>
  Claim C3 (OutOfMemory is a no-op). When the free list is exhausted
  (\<open>nextFreeFragment\<close> is \<^verbatim>\<open>nullptr\<close>), \<^verbatim>\<open>allocate\<close> and \<^verbatim>\<open>create_queue\<close> return
  \<^verbatim>\<open>nullptr\<close>, \<^verbatim>\<open>enqueue_byte\<close> on a \<^verbatim>\<open>nullptr\<close> handle leaves the handle
  \<^verbatim>\<open>nullptr\<close>, and \<^verbatim>\<open>enqueue_byte\<close> on a queue whose back fragment is full leaves
  the handle as it was. In each case the state after the call is the state before it
  with one report of \<^verbatim>\<open>on_out_of_memory\<close> added: \<open>data\<close> and \<open>nextFreeFragment\<close> are
  the same, and so are the fragments and the bytes of every queue.
\<close>

theorem allocation_failure_noop:
  assumes "nextFreeFragment s = nullptr"
  shows "allocate s = Some (nullptr, on_out_of_memory s) \<and>
         create_queue s = Some (nullptr, on_out_of_memory s) \<and>
         enqueue_byte nullptr byte s = Some (nullptr, on_out_of_memory s) \<and>
         (\<forall>front. back_full s front \<longrightarrow>
            enqueue_byte front byte s = Some (front, on_out_of_memory s)) \<and>
         data (on_out_of_memory s) = data s \<and>
         nextFreeFragment (on_out_of_memory s) = nextFreeFragment s \<and>
         reports (on_out_of_memory s) = reports s @ [OutOfMemory] \<and>
         (\<forall>q. segments (on_out_of_memory s) q = segments s q \<and>
              queue_bytes (on_out_of_memory s) q = queue_bytes s q)"
  using assms
  by (simp add: allocate_none create_queue_none enqueue_null_none enqueue_byte_back_full
      queue_bytes_reports on_out_of_memory_def)

lemma run_full_calls_eval:
  "(case run full_calls of (qs, s) \<Rightarrow>
      nextFreeFragment s = nullptr \<and> back_full s (Ptr 63) \<and> qs ! 63 = Ptr 63 \<and> length qs = 64)"
  by code_simp

lemma run_full_calls:
  "nextFreeFragment (snd (run full_calls)) = nullptr"
  "back_full (snd (run full_calls)) (Ptr 63)"
  "fst (run full_calls) ! 63 = Ptr 63"
  "length (fst (run full_calls)) = 64"
  using run_full_calls_eval by (simp_all add: case_prod_beta)

theorem allocation_failure_noop_witness:
  "nextFreeFragment (snd (run full_calls)) = nullptr \<and>
   back_full (snd (run full_calls)) (Ptr 63) \<and>
   create_queue (snd (run full_calls)) = Some (nullptr, on_out_of_memory (snd (run full_calls))) \<and>
   enqueue_byte nullptr 9 (snd (run full_calls)) =
     Some (nullptr, on_out_of_memory (snd (run full_calls))) \<and>
   enqueue_byte (Ptr 63) 9 (snd (run full_calls)) =
     Some (Ptr 63, on_out_of_memory (snd (run full_calls))) \<and>
   queue_bytes (on_out_of_memory (snd (run full_calls))) (Ptr 63) =
     queue_bytes (snd (run full_calls)) (Ptr 63)"
  using allocation_failure_noop [OF run_full_calls(1), of 9] run_full_calls by simp

subsection \<open>C2: capacity\<close>

lemma distinct_concat_nth:
  assumes "\<And>i. i < length cs \<Longrightarrow> distinct (cs ! i)"
    and "\<And>i j. i < length cs \<Longrightarrow> j < length cs \<Longrightarrow> i \<noteq> j \<Longrightarrow> set (cs ! i) \<inter> set (cs ! j) = {}"
  shows "distinct (concat cs)"
  using assms
proof (induction cs)
  case Nil
  then show ?case by simp
next
  case (Cons c cs)
  from Cons.prems(1) [of 0] have c: "distinct c" by simp
  have "distinct (concat cs)"
  proof (rule Cons.IH)
    show "distinct (cs ! i)" if "i < length cs" for i
      using Cons.prems(1) [of "Suc i"] that by simp
    show "set (cs ! i) \<inter> set (cs ! j) = {}" if "i < length cs" "j < length cs" "i \<noteq> j" for i j
      using Cons.prems(2) [of "Suc i" "Suc j"] that by simp
  qed
  moreover have "set c \<inter> set (concat cs) = {}"
  proof -
    have "set c \<inter> set ys = {}" if "ys \<in> set cs" for ys
    proof -
      from that obtain j where "j < length cs" "ys = cs ! j" by (metis in_set_conv_nth)
      with Cons.prems(2) [of 0 "Suc j"] show ?thesis by simp
    qed
    then show ?thesis by auto
  qed
  ultimately show ?case using c by simp
qed

lemma pool_ok_partition:
  assumes ok: "pool_ok qs s fl cs"
  shows "distinct (concat cs)" "length fl + length (concat cs) = 64"
proof -
  from ok have lcs: "length cs = length qs" and ld: "length (data s) = 64"
    by (simp_all add: pool_ok_length)
  show dc: "distinct (concat cs)"
  proof (rule distinct_concat_nth)
    show "distinct (cs ! i)" if "i < length cs" for i
      using pool_ok_queue [OF ok, of i] that lcs by (auto dest: queue_ok_distinct)
    show "set (cs ! i) \<inter> set (cs ! j) = {}" if "i < length cs" "j < length cs" "i \<noteq> j" for i j
      using pool_ok_disjoint [OF ok, of i j] that lcs by simp
  qed
  have in_cs: "\<exists>i<length qs. x \<in> set (cs ! i)" if "x \<in> set (concat cs)" for x
  proof -
    from that obtain ys where "ys \<in> set cs" "x \<in> set ys" by auto
    then obtain i where "i < length cs" "ys = cs ! i" by (metis in_set_conv_nth)
    with \<open>x \<in> set ys\<close> lcs show ?thesis by auto
  qed
  have disj: "set fl \<inter> set (concat cs) = {}"
  proof -
    have "x \<notin> set fl" if "x \<in> set (concat cs)" for x
    proof -
      from in_cs [OF that] obtain i where "i < length qs" "x \<in> set (cs ! i)" by blast
      with pool_ok_queue [OF ok this(1)] show ?thesis by auto
    qed
    then show ?thesis by auto
  qed
  have "set (fl @ concat cs) = {0..<64}"
  proof (intro equalityI subsetI)
    fix x assume "x \<in> set (fl @ concat cs)"
    then consider "x \<in> set fl" | "x \<in> set (concat cs)" by auto
    then have "x < 64"
    proof cases
      case 1
      with free_path_bound [of "data s" "nextFreeFragment s" fl] pool_ok_free [OF ok] ld
      show ?thesis by auto
    next
      case 2
      from in_cs [OF this] obtain i where i: "i < length qs" "x \<in> set (cs ! i)" by blast
      from pool_ok_queue [OF ok i(1)] have "queue_ok (data s) (qs ! i) (cs ! i)" by simp
      from queue_ok_bound [OF this ld] i(2) show ?thesis by simp
    qed
    then show "x \<in> {0..<64}" by simp
  next
    fix x :: nat assume "x \<in> {0..<64}"
    then have "x < 64" by simp
    from pool_ok_cover [OF ok this] show "x \<in> set (fl @ concat cs)"
    proof
      assume "x \<in> set fl" then show ?thesis by simp
    next
      assume "\<exists>i<length qs. x \<in> set (cs ! i)"
      then obtain i where "i < length qs" "x \<in> set (cs ! i)" by blast
      with lcs have "cs ! i \<in> set cs" by simp
      with \<open>x \<in> set (cs ! i)\<close> show ?thesis by auto
    qed
  qed
  moreover from pool_ok_free [OF ok] dc disj have "distinct (fl @ concat cs)" by simp
  ultimately have "length (fl @ concat cs) = card {0..<64::nat}"
    by (metis distinct_card)
  then show "length fl + length (concat cs) = 64" by simp
qed

text \<open>
  Claim C2 (capacity). In every reachable state the fragments of the caller's queues are
  pairwise different fragments of the pool, so at most 64 are in use; together with the
  free list they are the 64 fragments. When all 64 are in use, \<^verbatim>\<open>allocate\<close> fails: it
  reports \<^verbatim>\<open>on_out_of_memory\<close> and returns \<^verbatim>\<open>nullptr\<close>, \<^verbatim>\<open>create_queue\<close> returns
  \<^verbatim>\<open>nullptr\<close>, and an \<^verbatim>\<open>enqueue_byte\<close> that needs a fragment (the handle is
  \<^verbatim>\<open>nullptr\<close> or the back fragment is full) returns with the handle and the pool as
  they were.
\<close>

theorem capacity_bound:
  assumes "reachable qs s"
  shows "distinct (concat (map (segments s) qs)) \<and>
         length (concat (map (segments s) qs)) \<le> 64 \<and>
         length (concat (map (segments s) qs)) + length (freeList s) = 64 \<and>
         (length (concat (map (segments s) qs)) = 64 \<longrightarrow>
            allocate s = Some (nullptr, on_out_of_memory s) \<and>
            create_queue s = Some (nullptr, on_out_of_memory s) \<and>
            (\<forall>i<length qs. \<forall>byte. qs ! i = nullptr \<or> back_full s (qs ! i) \<longrightarrow>
               enqueue_byte (qs ! i) byte s = Some (qs ! i, on_out_of_memory s)))"
proof -
  let ?cs = "map (segments s) qs"
  from assms have ok: "pool_ok qs s (freeList s) ?cs" by (rule reachable_pool_ok)
  note part = pool_ok_partition [OF ok]
  have full: "nextFreeFragment s = nullptr" if "length (concat ?cs) = 64"
  proof -
    from that part(2) have "freeList s = []" by simp
    with pool_ok_free [OF ok] show ?thesis by simp
  qed
  have enq: "enqueue_byte (qs ! i) byte s = Some (qs ! i, on_out_of_memory s)"
    if "length (concat ?cs) = 64" "qs ! i = nullptr \<or> back_full s (qs ! i)" for i byte
    using that(2) full [OF that(1)]
    by (auto simp: enqueue_null_none enqueue_byte_back_full)
  from part full enq show ?thesis
    by (simp add: allocate_none create_queue_none add.commute)
qed

theorem capacity_bound_witness:
  "reachable (fst (run full_calls)) (snd (run full_calls)) \<and>
   length (concat (map (segments (snd (run full_calls))) (fst (run full_calls)))) = 64 \<and>
   length (freeList (snd (run full_calls))) = 0 \<and>
   create_queue (snd (run full_calls)) = Some (nullptr, on_out_of_memory (snd (run full_calls))) \<and>
   enqueue_byte (Ptr 63) 9 (snd (run full_calls)) =
     Some (Ptr 63, on_out_of_memory (snd (run full_calls)))"
proof -
  let ?qs = "fst (run full_calls)" and ?s = "snd (run full_calls)"
  note c = capacity_bound [OF reachable_run [of full_calls]]
  have fl: "freeList ?s = []"
    by (simp add: freeList_def run_full_calls(1) free_chain_nullptr)
  with c have used: "length (concat (map (segments ?s) ?qs)) = 64" by simp
  with c have cr: "create_queue ?s = Some (nullptr, on_out_of_memory ?s)"
    and en: "\<forall>i<length ?qs. \<forall>byte. ?qs ! i = nullptr \<or> back_full ?s (?qs ! i) \<longrightarrow>
               enqueue_byte (?qs ! i) byte ?s = Some (?qs ! i, on_out_of_memory ?s)"
    by blast+
  have "63 < length ?qs" by (simp add: run_full_calls(4))
  with en have "?qs ! 63 = nullptr \<or> back_full ?s (?qs ! 63) \<longrightarrow>
      enqueue_byte (?qs ! 63) 9 ?s = Some (?qs ! 63, on_out_of_memory ?s)"
    by blast
  with run_full_calls(2,3)
  have "enqueue_byte (Ptr 63) 9 ?s = Some (Ptr 63, on_out_of_memory ?s)"
    by simp
  with reachable_run [of full_calls] used fl cr show ?thesis by simp
qed

subsection \<open>C5: destroy_queue\<close>

lemma items_at_same:
  "length (data s') = length (data s) \<Longrightarrow> data s' ! y = data s ! y \<Longrightarrow>
   items_at s' y = items_at s y"
  by (simp add: items_at_def)

lemma local_step_others:
  assumes ok: "pool_ok qs s fl cs" and i: "i < length qs"
    and ls: "local_step s fl (cs ! i) s' q' fl' c'"
    and j: "j < length qs" "j \<noteq> i"
  shows "segments s' (qs ! j) = segments s (qs ! j) \<and>
         queue_bytes s' (qs ! j) = queue_bytes s (qs ! j)"
proof -
  from ok have ld: "length (data s) = 64" by (simp add: pool_ok_length)
  from ls have ld': "length (data s') = 64"
    and frame: "\<And>y. y \<notin> set fl \<Longrightarrow> y \<notin> set (cs ! i) \<Longrightarrow> data s' ! y = data s ! y"
    by (simp_all add: local_step_def)
  from pool_ok_queue [OF ok j(1)] have qj: "queue_ok (data s) (qs ! j) (cs ! j)"
    and dj: "set (cs ! j) \<inter> set fl = {}" by simp_all
  from pool_ok_disjoint [OF ok j(1) i j(2)] have dij: "set (cs ! j) \<inter> set (cs ! i) = {}" .
  have same: "data s' ! y = data s ! y" if "y \<in> set (cs ! j)" for y
    using that dj dij by (intro frame) auto
  then have "queue_ok (data s') (qs ! j) (cs ! j)"
    by (intro queue_ok_frame [OF qj]) (simp_all add: ld ld')
  then have s': "segments s' (qs ! j) = cs ! j" using ld' by (rule segments_queue_ok)
  from qj ld have s0: "segments s (qs ! j) = cs ! j" by (rule segments_queue_ok)
  have "contents s' (cs ! j) = contents s (cs ! j)"
    by (rule contents_frame) (simp add: items_at_same same ld ld')
  with s' s0 show ?thesis by (simp add: queue_bytes_contents)
qed

lemma local_step_free:
  assumes "local_step s fl c s' q' fl' c'"
  shows "freeList s' = fl'" "segments s' q' = c'"
  using assms by (simp_all add: local_step_def freeList_path segments_queue_ok)

text \<open>
  Claim C5 (destroy). In every reachable state, \<^verbatim>\<open>destroy_queue\<close> on a queue variable
  returns (the function is total: each round of its loop frees one used fragment), the
  handle it leaves is \<^verbatim>\<open>nullptr\<close>, every fragment of the queue is on the free list
  afterwards (the last one freed first in the list), no report is made, and the
  fragments and bytes of the other queues are as before. On a \<^verbatim>\<open>nullptr\<close> handle it
  returns the state it was given, whatever that state is.
\<close>

theorem destroy_queue_frees:
  "(reachable qs s \<and> i < length qs \<longrightarrow>
      (\<exists>s'. destroy_queue (qs ! i) s = Some (nullptr, s') \<and>
            freeList s' = rev (segments s (qs ! i)) @ freeList s \<and>
            reports s' = reports s \<and>
            (\<forall>j<length qs. j \<noteq> i \<longrightarrow>
               segments s' (qs ! j) = segments s (qs ! j) \<and>
               queue_bytes s' (qs ! j) = queue_bytes s (qs ! j)))) \<and>
   destroy_queue nullptr s = Some (nullptr, s)"
proof (intro conjI impI)
  show "destroy_queue nullptr s = Some (nullptr, s)"
    by (simp add: destroy_queue.simps)
next
  assume "reachable qs s \<and> i < length qs"
  then have r: "reachable qs s" and i: "i < length qs" by simp_all
  let ?fl = "freeList s" and ?cs = "map (segments s) qs"
  from r have ok: "pool_ok qs s ?fl ?cs" by (rule reachable_pool_ok)
  from i have at: "?cs ! i = segments s (qs ! i)" by simp
  from pool_ok_queue [OF ok i] pool_ok_free [OF ok] pool_ok_length [OF ok]
  have "destroy_post s ?fl (?cs ! i) (qs ! i) (destroy_queue (qs ! i) s)"
    by (intro destroy_local) simp_all
  then obtain s' where res: "destroy_queue (qs ! i) s = Some (nullptr, s')"
    and ls: "local_step s ?fl (?cs ! i) s' nullptr (rev (?cs ! i) @ ?fl) []"
    and rep: "reports s' = reports s"
    unfolding destroy_post_def by blast
  from local_step_free(1) [OF ls] at
  have fl: "freeList s' = rev (segments s (qs ! i)) @ freeList s" by simp
  from local_step_others [OF ok i ls]
  have "\<forall>j<length qs. j \<noteq> i \<longrightarrow>
          segments s' (qs ! j) = segments s (qs ! j) \<and>
          queue_bytes s' (qs ! j) = queue_bytes s (qs ! j)"
    by blast
  with res fl rep show "\<exists>s'. destroy_queue (qs ! i) s = Some (nullptr, s') \<and>
            freeList s' = rev (segments s (qs ! i)) @ freeList s \<and>
            reports s' = reports s \<and>
            (\<forall>j<length qs. j \<noteq> i \<longrightarrow>
               segments s' (qs ! j) = segments s (qs ! j) \<and>
               queue_bytes s' (qs ! j) = queue_bytes s (qs ! j))"
    by blast
qed

lemma run_two_fragment_calls:
  "(case run two_fragment_calls of (qs, s) \<Rightarrow>
      qs = [Ptr 0] \<and> segments s (Ptr 0) = [0, 1] \<and> freeList s = [2..<64])"
  by code_simp

theorem destroy_queue_frees_witness:
  "reachable (fst (run two_fragment_calls)) (snd (run two_fragment_calls)) \<and>
   0 < length (fst (run two_fragment_calls)) \<and>
   segments (snd (run two_fragment_calls)) (fst (run two_fragment_calls) ! 0) = [0, 1] \<and>
   (\<exists>s'. destroy_queue (fst (run two_fragment_calls) ! 0) (snd (run two_fragment_calls)) =
           Some (nullptr, s') \<and>
         freeList s' = 1 # 0 # [2..<64] \<and>
         reports s' = reports (snd (run two_fragment_calls))) \<and>
   destroy_queue nullptr FragmentPool = Some (nullptr, FragmentPool)"
proof -
  let ?qs = "fst (run two_fragment_calls)" and ?s = "snd (run two_fragment_calls)"
  from run_two_fragment_calls have e: "?qs = [Ptr 0]" "segments ?s (Ptr 0) = [0, 1]"
    "freeList ?s = [2..<64]"
    by (simp_all add: case_prod_beta)
  from e(1) have i: "0 < length ?qs" by simp
  from destroy_queue_frees [of ?qs ?s 0] reachable_run [of two_fragment_calls] i
  obtain s' where "destroy_queue (?qs ! 0) ?s = Some (nullptr, s')"
    "freeList s' = rev (segments ?s (?qs ! 0)) @ freeList ?s" "reports s' = reports ?s"
    by blast
  with e have "\<exists>s'. destroy_queue (?qs ! 0) ?s = Some (nullptr, s') \<and>
      freeList s' = 1 # 0 # [2..<64] \<and> reports s' = reports ?s"
    by simp
  with reachable_run [of two_fragment_calls] i e destroy_queue_frees [of "[]" FragmentPool 0]
  show ?thesis by simp
qed

subsection \<open>C7 and C8: item indices\<close>

lemma free_path_chunk:
  "free_path d p fl \<Longrightarrow> x \<in> set fl \<Longrightarrow> \<exists>n. d ! x = NextFree n"
  by (induction fl arbitrary: p) auto

lemma pool_ok_used:
  assumes ok: "pool_ok qs s fl cs" and u: "whenUsed s (Ptr p) = Some u"
  shows "\<exists>i j. i < length qs \<and> j < length (cs ! i) \<and> cs ! i ! j = p \<and> seg_ok (cs ! i) j u"
proof -
  from u [unfolded whenUsed_Some_iff] have p: "p < length (data s)" and d: "data s ! p = WhenUsed u"
    by simp_all
  from p pool_ok_length [OF ok] have "p < 64" by simp
  from pool_ok_cover [OF ok this] show ?thesis
  proof
    assume "p \<in> set fl"
    with free_path_chunk [of "data s" "nextFreeFragment s" fl p] pool_ok_free [OF ok] d
    show ?thesis by auto
  next
    assume "\<exists>i<length qs. p \<in> set (cs ! i)"
    then obtain i j where i: "i < length qs" and j: "j < length (cs ! i)" "cs ! i ! j = p"
      by (metis in_set_conv_nth)
    from pool_ok_queue [OF ok i] have "queue_ok (data s) (qs ! i) (cs ! i)" by simp
    from queue_ok_nth [OF this j(1)] j(2) d have "seg_ok (cs ! i) j u" by auto
    with i j show ?thesis by blast
  qed
qed

lemma seg_ok_range:
  assumes "seg_ok c j u"
  shows "-1 \<le> sint (m_frontItemIdx u)" "sint (m_frontItemIdx u) \<le> 27"
    "-1 \<le> sint (m_backItemIdx u)" "sint (m_backItemIdx u) \<le> 27"
  using assms by (auto simp: seg_ok_def split: if_splits)

text \<open>
  Claim C7 (indices stay in the payload). In every reachable state, every used fragment
  has its front and back item index between -1 and 27. So the byte that
  \<^verbatim>\<open>dequeue_byte\<close> reads (\<^verbatim>\<open>getFrontByte\<close> of a fragment that is not empty) is at an
  index of the array, the index that \<^verbatim>\<open>enqueue_byte\<close> writes after
  \<^verbatim>\<open>incrementBackItemIdx\<close> (on a fragment whose back item is not at the end) is
  between 0 and 27, its other writes are at index 0, and both operations return on every
  queue variable: in the model an access outside the array, like every other undefined
  behaviour, is the result \<open>None\<close>.
\<close>

theorem item_indices_in_range:
  assumes "reachable qs s"
  shows "(\<forall>p u. whenUsed s (Ptr p) = Some u \<longrightarrow>
            -1 \<le> sint (m_frontItemIdx u) \<and> sint (m_frontItemIdx u) \<le> 27 \<and>
            -1 \<le> sint (m_backItemIdx u) \<and> sint (m_backItemIdx u) \<le> 27 \<and>
            (\<not> isEmpty u \<longrightarrow> getFrontByte u \<noteq> None) \<and>
            (\<not> isBackItemAtEnd u \<longrightarrow>
               0 \<le> sint (m_backItemIdx u + 1) \<and> sint (m_backItemIdx u + 1) < 28)) \<and>
         (\<forall>i<length qs. \<forall>byte.
            enqueue_byte (qs ! i) byte s \<noteq> None \<and> dequeue_byte (qs ! i) s \<noteq> None)"
proof (intro conjI allI impI)
  let ?fl = "freeList s" and ?cs = "map (segments s) qs"
  from assms have ok: "pool_ok qs s ?fl ?cs" by (rule reachable_pool_ok)
  {
    fix p u assume u: "whenUsed s (Ptr p) = Some u"
    from pool_ok_used [OF ok u] obtain c j where "seg_ok c j u" by blast
    note r = seg_ok_range [OF this]
    from r show "-1 \<le> sint (m_frontItemIdx u)" "sint (m_frontItemIdx u) \<le> 27"
      "-1 \<le> sint (m_backItemIdx u)" "sint (m_backItemIdx u) \<le> 27" by simp_all
    {
      assume "\<not> isEmpty u"
      with r show "getFrontByte u \<noteq> None"
        by (simp add: isEmpty_def getFrontByte_def getByte_def)
    }
    {
      assume "\<not> isBackItemAtEnd u"
      with r have b: "sint (m_backItemIdx u) < 27" by (simp add: isBackItemAtEnd_def)
      then have "sint (m_backItemIdx u + 1) = sint (m_backItemIdx u) + 1"
        by (simp add: sint_succ)
      with r b show "0 \<le> sint (m_backItemIdx u + 1)" "sint (m_backItemIdx u + 1) < 28"
        by simp_all
    }
  }
  {
    fix i byte assume i: "i < length qs"
    from pool_ok_queue [OF ok i] pool_ok_free [OF ok] pool_ok_length [OF ok]
    have "enq_post s ?fl (?cs ! i) (qs ! i) byte (enqueue_byte (qs ! i) byte s)"
      "deq_post s ?fl (?cs ! i) (qs ! i) (dequeue_byte (qs ! i) s)"
      by (simp_all add: enqueue_local dequeue_local)
    then show "enqueue_byte (qs ! i) byte s \<noteq> None" "dequeue_byte (qs ! i) s \<noteq> None"
      by (auto simp: enq_post_def deq_post_def)
  }
qed

lemma run_two_fragment_used:
  "(case run two_fragment_calls of (qs, s) \<Rightarrow>
      whenUsed s (Ptr 1) = Some \<lparr>m_backFragmentIdx = -1, m_nextFragmentIdx = -1,
        m_frontItemIdx = -1, m_backItemIdx = 1, bytes = 5 # 5 # replicate 26 0\<rparr> \<and>
      whenUsed s (Ptr 0) = Some \<lparr>m_backFragmentIdx = 1, m_nextFragmentIdx = 1,
        m_frontItemIdx = 0, m_backItemIdx = 27, bytes = replicate 28 5\<rparr>)"
  by code_simp

theorem item_indices_in_range_witness:
  "reachable (fst (run two_fragment_calls)) (snd (run two_fragment_calls)) \<and>
   (\<exists>u. whenUsed (snd (run two_fragment_calls)) (Ptr 1) = Some u \<and>
        sint (m_frontItemIdx u) = -1 \<and> sint (m_backItemIdx u) = 1 \<and>
        sint (m_backItemIdx u + 1) < 28) \<and>
   enqueue_byte (Ptr 0) 9 (snd (run two_fragment_calls)) \<noteq> None \<and>
   dequeue_byte (Ptr 0) (snd (run two_fragment_calls)) \<noteq> None"
proof -
  let ?qs = "fst (run two_fragment_calls)" and ?s = "snd (run two_fragment_calls)"
  note t = item_indices_in_range [OF reachable_run [of two_fragment_calls]]
  from run_two_fragment_calls have e: "?qs = [Ptr 0]" by (simp add: case_prod_beta)
  from run_two_fragment_used obtain u where u: "whenUsed ?s (Ptr 1) = Some u"
    "sint (m_frontItemIdx u) = -1" "sint (m_backItemIdx u) = 1"
    by (simp add: case_prod_beta)
  then have "\<not> isBackItemAtEnd u" by (simp add: isBackItemAtEnd_def)
  with t u(1) have "sint (m_backItemIdx u + 1) < 28" by blast
  moreover from t e have "enqueue_byte (Ptr 0) 9 ?s \<noteq> None \<and> dequeue_byte (Ptr 0) ?s \<noteq> None"
    by (metis length_Cons less_Suc_eq_0_disj nth_Cons_0)
  ultimately show ?thesis using reachable_run [of two_fragment_calls] u by blast
qed

text \<open>
  Claim C8 (the second deallocation of \<^verbatim>\<open>dequeue_byte\<close>). In every reachable state a
  used fragment that has a next fragment has its back item index at 27. The branch of
  \<^verbatim>\<open>dequeue_byte\<close> that increments the front index and then finds the fragment empty
  (the front fragment is not empty, its front item is not at the end, and it is empty
  once the index is incremented) is therefore taken only when the front fragment has no
  next fragment, is the only fragment of its queue and holds exactly one byte.
\<close>

theorem next_fragment_means_full:
  assumes "reachable qs s"
  shows "(\<forall>p u. whenUsed s (Ptr p) = Some u \<and> sint (m_nextFragmentIdx u) \<noteq> -1 \<longrightarrow>
            sint (m_backItemIdx u) = 27) \<and>
         (\<forall>i<length qs. \<forall>fr.
            whenUsed s (qs ! i) = Some fr \<and> \<not> isEmpty fr \<and> \<not> isFrontItemAtEnd fr \<and>
            isEmpty (fr\<lparr>m_frontItemIdx := m_frontItemIdx fr + 1\<rparr>) \<longrightarrow>
            sint (m_nextFragmentIdx fr) = -1 \<and> length (segments s (qs ! i)) = 1 \<and>
            length (queue_bytes s (qs ! i)) = 1)"
proof (intro conjI allI impI)
  let ?fl = "freeList s" and ?cs = "map (segments s) qs"
  from assms have ok: "pool_ok qs s ?fl ?cs" by (rule reachable_pool_ok)
  {
    fix p u assume "whenUsed s (Ptr p) = Some u \<and> sint (m_nextFragmentIdx u) \<noteq> -1"
    then have u: "whenUsed s (Ptr p) = Some u" and n: "sint (m_nextFragmentIdx u) \<noteq> -1"
      by simp_all
    from pool_ok_used [OF ok u] obtain c j where "seg_ok c j u" by blast
    with n show "sint (m_backItemIdx u) = 27"
      by (auto simp: seg_ok_def link_def split: if_splits)
  }
  {
    fix i fr assume i: "i < length qs"
      and "whenUsed s (qs ! i) = Some fr \<and> \<not> isEmpty fr \<and> \<not> isFrontItemAtEnd fr \<and>
            isEmpty (fr\<lparr>m_frontItemIdx := m_frontItemIdx fr + 1\<rparr>)"
    then have fr: "whenUsed s (qs ! i) = Some fr" and ne: "\<not> isEmpty fr"
      and nend: "\<not> isFrontItemAtEnd fr"
      and emp: "isEmpty (fr\<lparr>m_frontItemIdx := m_frontItemIdx fr + 1\<rparr>)" by simp_all
    let ?c = "segments s (qs ! i)"
    from pool_ok_queue [OF ok i] i have q: "queue_ok (data s) (qs ! i) ?c" by simp
    from fr have nn: "qs ! i \<noteq> nullptr" by auto
    with q have cne: "?c \<noteq> []" by (auto simp: queue_ok_def)
    from queue_ok_hd [OF q cne] obtain u0 where qp: "qs ! i = Ptr (hd ?c)"
      and h: "hd ?c < length (data s)" and d0: "data s ! hd ?c = WhenUsed u0"
      and sf0: "seg_ok ?c 0 u0" by blast
    have "whenUsed s (Ptr (hd ?c)) = Some fr" by (subst qp [symmetric]) (rule fr)
    from this [unfolded whenUsed_Some_iff] d0 have "u0 = fr" by simp
    with d0 sf0 have d: "data s ! hd ?c = WhenUsed fr" and sf: "seg_ok ?c 0 fr" by simp_all
    note r = seg_ok_range [OF sf]
    from ne have f0: "sint (m_frontItemIdx fr) \<noteq> -1"
      and fb: "sint (m_frontItemIdx fr) \<le> sint (m_backItemIdx fr)"
      by (simp_all add: isEmpty_def)
    from nend r f0 have f27: "sint (m_frontItemIdx fr) < 27" "0 \<le> sint (m_frontItemIdx fr)"
      by (simp_all add: isFrontItemAtEnd_def)
    then have "sint (m_frontItemIdx fr + 1) = sint (m_frontItemIdx fr) + 1"
      by (simp add: sint_succ)
    with emp f27 fb have eq: "sint (m_backItemIdx fr) = sint (m_frontItemIdx fr)"
      by (simp add: isEmpty_def)
    with f27 have "sint (m_backItemIdx fr) \<noteq> 27" by simp
    from seg_ok_short [OF sf this cne] obtain p where c: "?c = [p]" by blast
    with sf show "sint (m_nextFragmentIdx fr) = -1" by (simp add: seg_ok_single_next)
    from c show "length ?c = 1" by simp
    from sf have "length (bytes fr) = 28" by (simp add: seg_ok_def)
    with f27 eq r have "items fr = [bytes fr ! nat (sint (m_frontItemIdx fr))]"
      by (intro items_one) simp_all
    with c h d show "length (queue_bytes s (qs ! i)) = 1"
      by (simp add: queue_bytes_contents contents_def items_at_used)
  }
qed

theorem next_fragment_means_full_witness:
  "reachable (fst (run two_fragment_calls)) (snd (run two_fragment_calls)) \<and>
   (\<exists>u. whenUsed (snd (run two_fragment_calls)) (Ptr 0) = Some u \<and>
        sint (m_nextFragmentIdx u) = 1 \<and> sint (m_backItemIdx u) = 27) \<and>
   (\<exists>fr. whenUsed (snd (run [Null_queue, Enqueue_byte 0 7])) (Ptr 0) = Some fr \<and>
        \<not> isEmpty fr \<and> \<not> isFrontItemAtEnd fr \<and>
        isEmpty (fr\<lparr>m_frontItemIdx := m_frontItemIdx fr + 1\<rparr>) \<and>
        sint (m_nextFragmentIdx fr) = -1) \<and>
   length (queue_bytes (snd (run [Null_queue, Enqueue_byte 0 7])) (Ptr 0)) = 1"
proof -
  let ?s = "snd (run two_fragment_calls)"
  let ?qs1 = "fst (run [Null_queue, Enqueue_byte 0 7])" and ?s1 = "snd (run [Null_queue, Enqueue_byte 0 7])"
  note t = next_fragment_means_full [OF reachable_run [of two_fragment_calls]]
  note t1 = next_fragment_means_full [OF reachable_run [of "[Null_queue, Enqueue_byte 0 7]"]]
  from run_two_fragment_used obtain u where u: "whenUsed ?s (Ptr 0) = Some u"
    "sint (m_nextFragmentIdx u) = 1"
    by (simp add: case_prod_beta)
  with t have "sint (m_backItemIdx u) = 27" by (metis one_neq_neg_one)
  with u have a: "\<exists>u. whenUsed ?s (Ptr 0) = Some u \<and>
        sint (m_nextFragmentIdx u) = 1 \<and> sint (m_backItemIdx u) = 27" by blast
  have q1: "?qs1 = [Ptr 0]" by (simp add: run_one_byte)
  obtain fr where fr: "whenUsed ?s1 (Ptr 0) = Some fr" "\<not> isEmpty fr" "\<not> isFrontItemAtEnd fr"
    "isEmpty (fr\<lparr>m_frontItemIdx := m_frontItemIdx fr + 1\<rparr>)"
    by (simp add: run_one_byte data_FragmentPool isEmpty_def isFrontItemAtEnd_def)
  from q1 have "0 < length ?qs1" "?qs1 ! 0 = Ptr 0" by simp_all
  with t1 fr have "sint (m_nextFragmentIdx fr) = -1 \<and> length (queue_bytes ?s1 (Ptr 0)) = 1"
    by metis
  with a fr reachable_run [of two_fragment_calls] show ?thesis by blast
qed

subsection \<open>C9: the workload of main\<close>

lemma main_eval:
  "(case main of
      None \<Rightarrow> False
    | Some (out, qs, s) \<Rightarrow>
        out = [0, 1, 2, 5, 3, 4, 6] \<and> qs = [nullptr, nullptr] \<and>
        freeList s = 1 # 0 # [2..<64] \<and> reports s = [])"
  by code_simp

lemma main_trace_bytes:
  "trace queue_bytes main_calls [] FragmentPool =
     [[[]], [[0]], [[0, 1]], [[0, 1], []], [[0, 1], [3]], [[0, 1, 2], [3]],
      [[0, 1, 2], [3, 4]], [[1, 2], [3, 4]], [[2], [3, 4]], [[2, 5], [3, 4]],
      [[2, 5], [3, 4, 6]], [[5], [3, 4, 6]], [[], [3, 4, 6]], [[], [3, 4, 6]],
      [[], [4, 6]], [[], [6]], [[], []], [[], []]]"
  by code_simp

lemma main_trace_segments:
  "trace segments main_calls [] FragmentPool =
     [[[0]], [[0]], [[0]], [[0], [1]], [[0], [1]], [[0], [1]], [[0], [1]],
      [[0], [1]], [[0], [1]], [[0], [1]], [[0], [1]], [[0], [1]], [[], [1]],
      [[], [1]], [[], [1]], [[], [1]], [[], []], [[], []]]"
  by code_simp

text \<open>
  Claim C9 (the reference workload). From the pool as its constructor leaves it, the
  calls of \<^verbatim>\<open>main\<close> all return; the calls of \<^verbatim>\<open>dequeue_byte\<close> return 0, 1, 2, 5
  (the four on \<^verbatim>\<open>q0\<close>) and then 3, 4, 6 (the three on \<^verbatim>\<open>q1\<close>); both handles end as
  \<^verbatim>\<open>nullptr\<close>; no report is made, and at the end the free list holds all 64 fragments.
  After every call the bytes of \<^verbatim>\<open>q0\<close> and of \<^verbatim>\<open>q1\<close> are the bytes enqueued in that
  queue and not yet dequeued from it, and the two queues lie in different fragments
  (fragment 0 and fragment 1): neither reads or writes the bytes of the other.
\<close>

theorem reference_workload:
  "(\<exists>s. main = Some ([0, 1, 2, 5, 3, 4, 6], [nullptr, nullptr], s) \<and>
        freeList s = 1 # 0 # [2..<64] \<and> length (freeList s) = 64 \<and> reports s = []) \<and>
   trace queue_bytes main_calls [] FragmentPool =
     [[[]], [[0]], [[0, 1]], [[0, 1], []], [[0, 1], [3]], [[0, 1, 2], [3]],
      [[0, 1, 2], [3, 4]], [[1, 2], [3, 4]], [[2], [3, 4]], [[2, 5], [3, 4]],
      [[2, 5], [3, 4, 6]], [[5], [3, 4, 6]], [[], [3, 4, 6]], [[], [3, 4, 6]],
      [[], [4, 6]], [[], [6]], [[], []], [[], []]] \<and>
   trace segments main_calls [] FragmentPool =
     [[[0]], [[0]], [[0]], [[0], [1]], [[0], [1]], [[0], [1]], [[0], [1]],
      [[0], [1]], [[0], [1]], [[0], [1]], [[0], [1]], [[0], [1]], [[], [1]],
      [[], [1]], [[], [1]], [[], [1]], [[], []], [[], []]]"
proof -
  from main_eval obtain s where m: "main = Some ([0, 1, 2, 5, 3, 4, 6], [nullptr, nullptr], s)"
    "freeList s = 1 # 0 # [2..<64]" "reports s = []"
    by (auto split: option.splits)
  from m(2) have "length (freeList s) = length (1 # 0 # [2..<64::nat])" by (rule arg_cong)
  also have "\<dots> = 64" by simp
  finally have "length (freeList s) = 64" .
  with m have "\<exists>s. main = Some ([0, 1, 2, 5, 3, 4, 6], [nullptr, nullptr], s) \<and>
        freeList s = 1 # 0 # [2..<64] \<and> length (freeList s) = 64 \<and> reports s = []"
    by blast
  with main_trace_bytes main_trace_segments show ?thesis by (intro conjI)
qed

theorem reference_workload_witness:
  "map_option fst main = Some [0, 1, 2, 5, 3, 4, 6] \<and>
   last (trace segments main_calls [] FragmentPool) = [[], []]"
  using reference_workload by auto

subsection \<open>C6: the life of a queue\<close>

lemma run_created_eval:
  "(case run [Create_queue] of (qs, s) \<Rightarrow>
      qs = [Ptr 0] \<and> queue_bytes s (Ptr 0) = [] \<and> segments s (Ptr 0) = [0] \<and>
      freeList s = [1..<64])"
  by code_simp

text \<open>
  Claim C6 as stated fails: after \<^verbatim>\<open>create_queue\<close> on the new pool (the first call of
  \<^verbatim>\<open>main\<close>) the queue exists, holds fragment 0, which is not on the free list, and
  has no byte.
\<close>

theorem queue_without_bytes_holds_memory:
  "reachable (fst (run [Create_queue])) (snd (run [Create_queue])) \<and>
   fst (run [Create_queue]) = [Ptr 0] \<and>
   queue_bytes (snd (run [Create_queue])) (Ptr 0) = [] \<and>
   segments (snd (run [Create_queue])) (Ptr 0) = [0] \<and>
   0 \<notin> set (freeList (snd (run [Create_queue])))"
  using run_created_eval reachable_run [of "[Create_queue]"]
  by (simp add: case_prod_beta)

lemma room_g_free: "fl \<noteq> [] \<Longrightarrow> room_g s fl c \<noteq> 0"
  by (simp add: room_g_def)

text \<open>
  Claim C6, amended. In every reachable state, for every queue variable:
  \<^verbatim>\<open>enqueue_byte\<close> on a \<^verbatim>\<open>nullptr\<close> handle, when a fragment is free, creates the
  queue, which then holds the byte; the call of \<^verbatim>\<open>dequeue_byte\<close> on a queue that holds
  exactly one byte returns that byte, leaves the handle \<^verbatim>\<open>nullptr\<close> and leaves the
  fragments of the queue on the free list; and a queue that exists and holds no byte is
  one fragment with both item indices at -1 and no next fragment, as \<^verbatim>\<open>create_queue\<close>
  sets them and as no \<^verbatim>\<open>enqueue_byte\<close> leaves them.
\<close>

theorem queue_lifecycle:
  assumes "reachable qs s" "i < length qs"
  shows "(qs ! i = nullptr \<and> nextFreeFragment s \<noteq> nullptr \<longrightarrow>
            (\<exists>q' s'. enqueue_byte (qs ! i) byte s = Some (q', s') \<and> q' \<noteq> nullptr \<and>
                     queue_bytes s' q' = [byte])) \<and>
         (\<forall>x. queue_bytes s (qs ! i) = [x] \<longrightarrow>
            (\<exists>s'. dequeue_byte (qs ! i) s = Some (x, nullptr, s') \<and>
                  set (freeList s') = set (segments s (qs ! i)) \<union> set (freeList s))) \<and>
         (qs ! i \<noteq> nullptr \<and> queue_bytes s (qs ! i) = [] \<longrightarrow>
            (\<exists>p fr. qs ! i = Ptr p \<and> segments s (qs ! i) = [p] \<and>
                    whenUsed s (Ptr p) = Some fr \<and>
                    sint (m_frontItemIdx fr) = -1 \<and> sint (m_backItemIdx fr) = -1 \<and>
                    sint (m_nextFragmentIdx fr) = -1))"
proof (intro conjI allI impI)
  let ?fl = "freeList s" and ?c = "segments s (qs ! i)"
  let ?cs = "map (segments s) qs"
  from assms(1) have ok: "pool_ok qs s ?fl ?cs" by (rule reachable_pool_ok)
  from assms(2) have at: "?cs ! i = ?c" by simp
  from pool_ok_queue [OF ok assms(2)] at have q: "queue_ok (data s) (qs ! i) ?c"
    and disj: "set ?c \<inter> set ?fl = {}" by simp_all
  from pool_ok_free [OF ok] have fp: "free_path (data s) (nextFreeFragment s) ?fl"
    and dfl: "distinct ?fl" by simp_all
  from pool_ok_length [OF ok] have len: "length (data s) = 64" by simp
  {
    assume "qs ! i = nullptr \<and> nextFreeFragment s \<noteq> nullptr"
    then have n: "qs ! i = nullptr" and f: "nextFreeFragment s \<noteq> nullptr" by simp_all
    from fp f have "?fl \<noteq> []" by auto
    then have "room_g s ?fl ?c \<noteq> 0" by (rule room_g_free)
    moreover from q n have c: "?c = []" by (auto simp: queue_ok_def split: list.splits)
    moreover have "enq_post s ?fl ?c (qs ! i) byte (enqueue_byte (qs ! i) byte s)"
      using q fp dfl disj len by (rule enqueue_local)
    ultimately obtain q' s' fl' c' where r: "enqueue_byte (qs ! i) byte s = Some (q', s')"
      and ls: "local_step s ?fl ?c s' q' fl' c'" and cont: "contents s' c' = [byte]"
      unfolding enq_post_def by (auto simp: contents_Nil)
    from local_step_free(2) [OF ls] cont have qb: "queue_bytes s' q' = [byte]"
      by (simp add: queue_bytes_contents)
    have "q' \<noteq> nullptr"
    proof
      assume "q' = nullptr"
      then have "queue_bytes s' q' = []"
        by (simp add: queue_bytes_def segments_def chain_nullptr)
      with qb show False by simp
    qed
    with r qb show "\<exists>q' s'. enqueue_byte (qs ! i) byte s = Some (q', s') \<and> q' \<noteq> nullptr \<and>
                     queue_bytes s' q' = [byte]" by blast
  }
  {
    fix x assume "queue_bytes s (qs ! i) = [x]"
    then have cx: "contents s ?c = [x]" by (simp add: queue_bytes_contents)
    have "deq_post s ?fl ?c (qs ! i) (dequeue_byte (qs ! i) s)"
      using q fp dfl disj len by (rule dequeue_local)
    with cx obtain b q' s' fl' c' where r: "dequeue_byte (qs ! i) s = Some (b, q', s')"
      and ls: "local_step s ?fl ?c s' q' fl' c'" and cont: "[x] = b # contents s' c'"
      and e: "c' = [] \<or> contents s' c' \<noteq> []"
      unfolding deq_post_def by auto
    from cont e have bx: "b = x" and c': "c' = []" by auto
    from ls c' have "queue_ok (data s') q' []" and sets: "set fl' = set ?fl \<union> set ?c"
      by (auto simp: local_step_def)
    then have "q' = nullptr" by (simp add: queue_ok_empty)
    with r bx local_step_free(1) [OF ls] sets
    show "\<exists>s'. dequeue_byte (qs ! i) s = Some (x, nullptr, s') \<and>
                  set (freeList s') = set (segments s (qs ! i)) \<union> set (freeList s)"
      by auto
  }
  {
    assume "qs ! i \<noteq> nullptr \<and> queue_bytes s (qs ! i) = []"
    then have nn: "qs ! i \<noteq> nullptr" and e: "contents s ?c = []"
      by (simp_all add: queue_bytes_contents)
    from q nn have cne: "?c \<noteq> []" by (auto simp: queue_ok_def)
    from queue_ok_hd [OF q cne] obtain fr where qp: "qs ! i = Ptr (hd ?c)"
      and h: "hd ?c < length (data s)" and d: "data s ! hd ?c = WhenUsed fr"
      and sf: "seg_ok ?c 0 fr" by blast
    from cne obtain p ps where c: "?c = p # ps" by (cases ?c) auto
    with e h d have ie: "items fr = []" by (simp add: contents_Cons items_at_used)
    have f: "sint (m_frontItemIdx fr) = -1"
    proof (rule ccontr)
      assume "sint (m_frontItemIdx fr) \<noteq> -1"
      with sf have "items fr \<noteq> []"
        by (intro items_nonempty) (auto simp: seg_ok_def)
      with ie show False by simp
    qed
    with sf have b: "sint (m_backItemIdx fr) = -1" by (simp add: seg_ok_def)
    then have "sint (m_backItemIdx fr) \<noteq> 27" by simp
    from seg_ok_short [OF sf this cne] c have c1: "?c = [p]" by simp
    with sf have n: "sint (m_nextFragmentIdx fr) = -1" by (simp add: seg_ok_single_next)
    from h d c have w: "whenUsed s (Ptr p) = Some fr" by simp
    from qp c have "qs ! i = Ptr p" by simp
    with c1 w f b n
    show "\<exists>p fr. qs ! i = Ptr p \<and> segments s (qs ! i) = [p] \<and>
                    whenUsed s (Ptr p) = Some fr \<and>
                    sint (m_frontItemIdx fr) = -1 \<and> sint (m_backItemIdx fr) = -1 \<and>
                    sint (m_nextFragmentIdx fr) = -1"
      by blast
  }
qed

lemma run_one_byte_eval:
  "(case run [Null_queue, Enqueue_byte 0 7] of (qs, s) \<Rightarrow>
      qs = [Ptr 0] \<and> queue_bytes s (Ptr 0) = [7])"
  by code_simp

theorem queue_lifecycle_witness:
  "reachable [nullptr] FragmentPool \<and> nextFreeFragment FragmentPool \<noteq> nullptr \<and>
   (\<exists>q' s'. enqueue_byte nullptr 7 FragmentPool = Some (q', s') \<and> q' \<noteq> nullptr \<and>
            queue_bytes s' q' = [7]) \<and>
   queue_bytes (snd (run [Null_queue, Enqueue_byte 0 7])) (Ptr 0) = [7] \<and>
   (\<exists>s'. dequeue_byte (Ptr 0) (snd (run [Null_queue, Enqueue_byte 0 7])) =
           Some (7, nullptr, s') \<and>
         set (freeList s') =
           set (segments (snd (run [Null_queue, Enqueue_byte 0 7])) (Ptr 0)) \<union>
           set (freeList (snd (run [Null_queue, Enqueue_byte 0 7])))) \<and>
   queue_bytes (snd (run [Create_queue])) (Ptr 0) = [] \<and>
   (\<exists>fr. whenUsed (snd (run [Create_queue])) (Ptr 0) = Some fr \<and>
         sint (m_frontItemIdx fr) = -1 \<and> sint (m_backItemIdx fr) = -1 \<and>
         sint (m_nextFragmentIdx fr) = -1)"
proof -
  let ?qs1 = "fst (run [Null_queue, Enqueue_byte 0 7])"
  let ?s1 = "snd (run [Null_queue, Enqueue_byte 0 7])"
  let ?qs2 = "fst (run [Create_queue])" and ?s2 = "snd (run [Create_queue])"
  have nf: "nextFreeFragment FragmentPool \<noteq> nullptr" by (simp add: FragmentPool_fields)
  from queue_lifecycle [OF reachable_Null, of 0 7] nf
  have a: "\<exists>q' s'. enqueue_byte nullptr 7 FragmentPool = Some (q', s') \<and> q' \<noteq> nullptr \<and>
            queue_bytes s' q' = [7]"
    by simp
  from run_one_byte_eval have e1: "?qs1 = [Ptr 0]" "queue_bytes ?s1 (Ptr 0) = [7]"
    by (simp_all add: case_prod_beta)
  from e1(1) have i1: "0 < length ?qs1" "?qs1 ! 0 = Ptr 0" by simp_all
  from queue_lifecycle [OF reachable_run [of "[Null_queue, Enqueue_byte 0 7]"] i1(1), of 7]
    i1(2) e1(2)
  have b: "\<exists>s'. dequeue_byte (Ptr 0) ?s1 = Some (7, nullptr, s') \<and>
         set (freeList s') = set (segments ?s1 (Ptr 0)) \<union> set (freeList ?s1)"
    by simp
  from run_created_eval have e2: "?qs2 = [Ptr 0]" "queue_bytes ?s2 (Ptr 0) = []"
    by (simp_all add: case_prod_beta)
  from e2(1) have i2: "0 < length ?qs2" "?qs2 ! 0 = Ptr 0" by simp_all
  from queue_lifecycle [OF reachable_run [of "[Create_queue]"] i2(1), of 7] i2(2) e2(2)
  have c: "\<exists>fr. whenUsed ?s2 (Ptr 0) = Some fr \<and>
         sint (m_frontItemIdx fr) = -1 \<and> sint (m_backItemIdx fr) = -1 \<and>
         sint (m_nextFragmentIdx fr) = -1"
    by (simp del: whenUsed.simps)
  from reachable_Null nf a e1(2) b e2(2) c show ?thesis by (intro conjI)
qed

end
